theory Spec2Isabelle
  imports Main
begin

section \<open>The concurrent queue of \<^verbatim>\<open>JavaScript/5-pipe.js\<close>\<close>

text \<open>
  The program is a single-threaded JavaScript class \<^verbatim>\<open>Queue\<close>, configured through a
  \<^verbatim>\<open>QueueFactory\<close>. Its methods mutate the queue object, call the user's handler and
  listeners, and (through \<^verbatim>\<open>pipe\<close>) call \<^verbatim>\<open>add\<close> of another queue. The model passes
  an explicit \<open>world\<close>: a store of queue objects, the activation records of the closures
  that \<^verbatim>\<open>next\<close> creates, the clock read by \<^verbatim>\<open>Date.now()\<close>, the pending zero-delay
  timeouts, and the trace of calls to the handler and to the listeners.

  \<^item> Tasks and results are opaque values; they are represented by natural numbers.
  \<^item> Numbers that the code only counts or compares (\<^verbatim>\<open>count\<close>, \<^verbatim>\<open>concurrency\<close>,
    priorities, milliseconds) are integers; \<^verbatim>\<open>Infinity\<close> for a timeout is \<open>None\<close>.
  \<^item> A listener is either set or null; calling a set listener appends an event to the
    trace. Handlers and listeners are taken not to throw and not to call the methods of a
    queue; a handler reaches the queue through its completion callback only.
  \<^item> The handler either keeps its completion callback for later (\<open>Later\<close>) or calls it
    before it returns (\<open>Now err res\<close>), as the handler of \<^verbatim>\<open>destination\<close> in the usage
    section of the source does. Later calls of a completion callback and timer firings are
    operations of their own (\<open>Complete\<close>, \<open>Timeout\<close>, \<open>Deferred\<close>). A repeated call of
    a callback does nothing whenever it happens, so a handler that calls twice before it
    returns is covered by \<open>Now\<close> followed by \<open>Complete\<close>.
  \<^item> The first argument of a completion callback is tested for truthiness only, so it is an
    \<open>error option\<close>.
  \<^item> A handler that completes at once re-enters the queue; a pipeline wired in a cycle can
    recurse without end. The recursive functions therefore take a fuel argument that bounds
    the nesting depth of synchronous handler completions; \<open>OutOfFuel\<close> stands for the
    recursion that does not return.
  \<^item> \<^verbatim>\<open>Array.prototype.sort\<close> is stable (ECMAScript 2019); with the comparator
    \<^verbatim>\<open>(a, b) => b.priority - a.priority\<close> it is \<open>sort_key\<close> on the negated priority.
  \<^item> Every queue is built from a factory object of its own, as in the usage section, so no
    two queues share the \<^verbatim>\<open>waiting\<close> array that \<^verbatim>\<open>Object.assign\<close> copies by
    reference; programs that build two queues from one factory object are outside the model.
\<close>

subsection \<open>Data\<close>

type_synonym task = nat
type_synonym qid = nat

datatype error = ProcessTimedOut | WaitingTimedOut | HandlerError nat

datatype reply = Later | Now "error option" task

record entry =
  task :: task
  start :: int
  priority :: int

record factory =
  concurrency :: int
  count :: int
  waiting :: "entry list"
  priorityMode :: bool
  waitTimeout :: "int option"
  processTimeout :: "int option"
  destination :: "qid option"
  onProcess :: "(task \<Rightarrow> reply) option"
  onDone :: bool
  onSuccess :: bool
  onFailure :: bool
  onDrain :: bool

record queue = factory +
  paused :: bool

text \<open>
  The closure \<^verbatim>\<open>finish\<close> that \<^verbatim>\<open>next\<close> creates captures the task, the flag
  \<^verbatim>\<open>finished\<close> and the timer handle; \<open>timer\<close> holds the deadline of a pending timeout.
\<close>

record activation =
  owner :: qid
  atask :: task
  finished :: bool
  timer :: "int option"

datatype event =
    Process qid task
  | Success qid task
  | Failure qid error task
  | Finished qid "error option" task
  | Drain qid

record world =
  queues :: "qid \<Rightarrow> queue"
  acts :: "activation list"
  clock :: int
  deferred :: "qid list"
  trace :: "event list"

text \<open>
  A call returns normally, or throws (the \<^verbatim>\<open>TypeError\<close> of destructuring
  \<^verbatim>\<open>undefined\<close> or of calling \<^verbatim>\<open>null\<close>) leaving the mutations made so far, or does
  not return.
\<close>

datatype result = Done world | Thrown world | OutOfFuel

subsection \<open>QueueFactory\<close>

definition QueueFactory_init :: factory where
  "QueueFactory_init =
     \<lparr>concurrency = 0, count = 0, waiting = [], priorityMode = False,
      waitTimeout = None, processTimeout = None, destination = None,
      onProcess = None, onDone = False, onSuccess = False, onFailure = False,
      onDrain = False\<rparr>"

definition QueueFactory_priority :: "bool \<Rightarrow> factory \<Rightarrow> factory" where
  "QueueFactory_priority flag f = f\<lparr>priorityMode := flag\<rparr>"

definition QueueFactory_wait :: "int option \<Rightarrow> factory \<Rightarrow> factory" where
  "QueueFactory_wait msec f = f\<lparr>waitTimeout := msec\<rparr>"

definition QueueFactory_timeout :: "int option \<Rightarrow> factory \<Rightarrow> factory" where
  "QueueFactory_timeout msec f = f\<lparr>processTimeout := msec\<rparr>"

definition QueueFactory_channels :: "int \<Rightarrow> factory \<Rightarrow> factory" where
  "QueueFactory_channels c f = f\<lparr>concurrency := c\<rparr>"

definition QueueFactory_process :: "(task \<Rightarrow> reply) \<Rightarrow> factory \<Rightarrow> factory" where
  "QueueFactory_process listener f = f\<lparr>onProcess := Some listener\<rparr>"

definition QueueFactory_done :: "factory \<Rightarrow> factory" where
  "QueueFactory_done f = f\<lparr>onDone := True\<rparr>"

definition QueueFactory_success :: "factory \<Rightarrow> factory" where
  "QueueFactory_success f = f\<lparr>onSuccess := True\<rparr>"

definition QueueFactory_failure :: "factory \<Rightarrow> factory" where
  "QueueFactory_failure f = f\<lparr>onFailure := True\<rparr>"

definition QueueFactory_drain :: "factory \<Rightarrow> factory" where
  "QueueFactory_drain f = f\<lparr>onDrain := True\<rparr>"

text \<open>
  The constructor of \<^verbatim>\<open>Queue\<close> sets \<^verbatim>\<open>paused\<close> and then copies every field of the
  factory onto the new object.
\<close>

definition build :: "factory \<Rightarrow> queue" where
  "build f =
     \<lparr>concurrency = concurrency f, count = count f, waiting = waiting f,
      priorityMode = priorityMode f, waitTimeout = waitTimeout f,
      processTimeout = processTimeout f, destination = destination f,
      onProcess = onProcess f, onDone = onDone f, onSuccess = onSuccess f,
      onFailure = onFailure f, onDrain = onDrain f, paused = False\<rparr>"

text \<open>The factories that the fluent interface can produce.\<close>

inductive configured :: "factory \<Rightarrow> bool" where
  cf_init: "configured QueueFactory_init"
| cf_priority: "configured f \<Longrightarrow> configured (QueueFactory_priority flag f)"
| cf_wait: "configured f \<Longrightarrow> configured (QueueFactory_wait msec f)"
| cf_timeout: "configured f \<Longrightarrow> configured (QueueFactory_timeout msec f)"
| cf_channels: "configured f \<Longrightarrow> configured (QueueFactory_channels c f)"
| cf_process: "configured f \<Longrightarrow> configured (QueueFactory_process listener f)"
| cf_done: "configured f \<Longrightarrow> configured (QueueFactory_done f)"
| cf_success: "configured f \<Longrightarrow> configured (QueueFactory_success f)"
| cf_failure: "configured f \<Longrightarrow> configured (QueueFactory_failure f)"
| cf_drain: "configured f \<Longrightarrow> configured (QueueFactory_drain f)"

subsection \<open>Queue\<close>

definition emit :: "event \<Rightarrow> world \<Rightarrow> world" where
  "emit e w = w\<lparr>trace := trace w @ [e]\<rparr>"

definition upd_queue :: "qid \<Rightarrow> (queue \<Rightarrow> queue) \<Rightarrow> world \<Rightarrow> world" where
  "upd_queue q f w = w\<lparr>queues := (queues w)(q := f (queues w q))\<rparr>"

definition sort_waiting :: "entry list \<Rightarrow> entry list" where
  "sort_waiting es = sort_key (\<lambda>e. - priority e) es"

text \<open>
  \<^verbatim>\<open>waitTimeout !== Infinity\<close> and \<^verbatim>\<open>Date.now() - start > waitTimeout\<close>.
\<close>

definition is_expired :: "world \<Rightarrow> qid \<Rightarrow> entry \<Rightarrow> bool" where
  "is_expired w q e =
     (case waitTimeout (queues w q) of
        None \<Rightarrow> False
      | Some limit \<Rightarrow> clock w - start e > limit)"

text \<open>
  \<open>add\<close>, \<open>takeNext\<close> and \<open>finish\<close> are the methods of that name; \<open>next_task\<close> is the
  method \<^verbatim>\<open>next\<close> and \<open>next_finish\<close> the closure \<^verbatim>\<open>finish\<close> it creates, called with the
  index of its activation record. \<^verbatim>\<open>waiting.shift()\<close> on an empty array yields
  \<^verbatim>\<open>undefined\<close>, whose destructuring throws.
\<close>

function add :: "nat \<Rightarrow> qid \<Rightarrow> task \<Rightarrow> int \<Rightarrow> world \<Rightarrow> result"
and next_task :: "nat \<Rightarrow> qid \<Rightarrow> task \<Rightarrow> world \<Rightarrow> result"
and next_finish :: "nat \<Rightarrow> nat \<Rightarrow> error option \<Rightarrow> task \<Rightarrow> world \<Rightarrow> result"
and takeNext :: "nat \<Rightarrow> qid \<Rightarrow> world \<Rightarrow> result"
and finish :: "nat \<Rightarrow> qid \<Rightarrow> error option \<Rightarrow> task \<Rightarrow> world \<Rightarrow> result"
where
  "add n q t p w =
     (if \<not> paused (queues w q) \<and> count (queues w q) < concurrency (queues w q)
      then next_task n q t w
      else Done (upd_queue q (\<lambda>s. s\<lparr>waiting :=
              (if priorityMode s then sort_waiting else id)
                (waiting s @ [\<lparr>task = t, start = clock w, priority = p\<rparr>])\<rparr>) w))"
| "next_task n q t w =
     (let a = length (acts w);
          w1 = upd_queue q (\<lambda>s. s\<lparr>count := count s + 1\<rparr>) w;
          tm = (case processTimeout (queues w1 q) of
                  None \<Rightarrow> None
                | Some d \<Rightarrow> Some (clock w1 + d));
          w2 = w1\<lparr>acts := acts w1 @
                 [\<lparr>owner = q, atask = t, finished = False, timer = tm\<rparr>]\<rparr>
      in case onProcess (queues w2 q) of
           None \<Rightarrow> Thrown w2
         | Some handler \<Rightarrow>
             (let w3 = emit (Process q t) w2 in
              case handler t of
                Later \<Rightarrow> Done w3
              | Now e r \<Rightarrow>
                  (case n of 0 \<Rightarrow> OutOfFuel | Suc m \<Rightarrow> next_finish m a e r w3)))"
| "next_finish n a e r w =
     (if finished (acts w ! a) then Done w
      else
        let q = owner (acts w ! a);
            w1 = w\<lparr>acts := (acts w)[a := (acts w ! a)\<lparr>finished := True, timer := None\<rparr>]\<rparr>;
            w2 = upd_queue q (\<lambda>s. s\<lparr>count := count s - 1\<rparr>) w1
        in case finish n q e r w2 of
             Done w3 \<Rightarrow>
               if \<not> paused (queues w3 q) \<and> waiting (queues w3 q) \<noteq> []
               then takeNext n q w3 else Done w3
           | Thrown w3 \<Rightarrow> Thrown w3
           | OutOfFuel \<Rightarrow> OutOfFuel)"
| "takeNext n q w =
     (case waiting (queues w q) of
        [] \<Rightarrow> Thrown w
      | e # rest \<Rightarrow>
          let w1 = upd_queue q (\<lambda>s. s\<lparr>waiting := rest\<rparr>) w in
          if is_expired w1 q e then
            (case finish n q (Some WaitingTimedOut) (task e) w1 of
               Done w2 \<Rightarrow>
                 Done (if waiting (queues w2 q) \<noteq> []
                       then w2\<lparr>deferred := deferred w2 @ [q]\<rparr> else w2)
             | Thrown w2 \<Rightarrow> Thrown w2
             | OutOfFuel \<Rightarrow> OutOfFuel)
          else if count (queues w1 q) < concurrency (queues w1 q)
          then next_task n q (task e) w1
          else Done w1)"
| "finish n q e r w =
     (let s = queues w q in
      case e of
        Some err \<Rightarrow>
          (let w1 = (if onFailure s then emit (Failure q err r) w else w);
               w2 = (if onDone s then emit (Finished q e r) w1 else w1)
           in Done (if count (queues w2 q) = 0 \<and> onDrain s
                    then emit (Drain q) w2 else w2))
      | None \<Rightarrow>
          (let w1 = (if onSuccess s then emit (Success q r) w else w) in
           case (case destination (queues w1 q) of
                   None \<Rightarrow> Done w1
                 | Some d \<Rightarrow> add n d r 0 w1) of
             Done w2 \<Rightarrow>
               (let w3 = (if onDone s then emit (Finished q e r) w2 else w2)
                in Done (if count (queues w3 q) = 0 \<and> onDrain s
                         then emit (Drain q) w3 else w3))
           | Thrown w2 \<Rightarrow> Thrown w2
           | OutOfFuel \<Rightarrow> OutOfFuel))"
  by pat_completeness auto

termination
  by (relation "measure (\<lambda>x. case x of
        Inl (Inl (n, _)) \<Rightarrow> 6 * n + 2
      | Inl (Inr (n, _)) \<Rightarrow> 6 * n + 1
      | Inr (Inl (n, _)) \<Rightarrow> 6 * n + 5
      | Inr (Inr (Inl (n, _))) \<Rightarrow> 6 * n + 4
      | Inr (Inr (Inr (n, _))) \<Rightarrow> 6 * n + 3)") auto

declare add.simps [simp del] next_task.simps [simp del] next_finish.simps [simp del]
  takeNext.simps [simp del] finish.simps [simp del]

definition pause :: "qid \<Rightarrow> world \<Rightarrow> world" where
  "pause q w = upd_queue q (\<lambda>s. s\<lparr>paused := True\<rparr>) w"

text \<open>The loop \<^verbatim>\<open>for (let i = 0; i < channels; i++) this.takeNext()\<close>.\<close>

fun resume_loop :: "nat \<Rightarrow> qid \<Rightarrow> nat \<Rightarrow> world \<Rightarrow> result" where
  "resume_loop n q 0 w = Done w"
| "resume_loop n q (Suc k) w =
     (case takeNext n q w of
        Done w' \<Rightarrow> resume_loop n q k w'
      | Thrown w' \<Rightarrow> Thrown w'
      | OutOfFuel \<Rightarrow> OutOfFuel)"

definition resume :: "nat \<Rightarrow> qid \<Rightarrow> world \<Rightarrow> result" where
  "resume n q w =
     (case (if waiting (queues w q) \<noteq> []
            then resume_loop n q
                   (nat (concurrency (queues w q) - count (queues w q))) w
            else Done w) of
        Done w' \<Rightarrow> Done (upd_queue q (\<lambda>s. s\<lparr>paused := False\<rparr>) w')
      | Thrown w' \<Rightarrow> Thrown w'
      | OutOfFuel \<Rightarrow> OutOfFuel)"

definition pipe :: "qid \<Rightarrow> qid option \<Rightarrow> world \<Rightarrow> world" where
  "pipe q d w = upd_queue q (\<lambda>s. s\<lparr>destination := d\<rparr>) w"

subsection \<open>The event loop\<close>

text \<open>
  What can happen to a world: a call of a public method, a handler calling the completion
  callback it was given (any number of times), the process timer of an activation firing
  (only while it is pending and due), the oldest zero-delay timeout of \<^verbatim>\<open>takeNext\<close>
  firing, and time passing.
\<close>

datatype op =
    Add qid task int
  | Pause qid
  | Resume qid
  | Pipe qid "qid option"
  | Complete nat "error option" task
  | Timeout nat
  | Deferred
  | Tick nat

fun run :: "nat \<Rightarrow> op \<Rightarrow> world \<Rightarrow> result" where
  "run n (Add q t p) w = add n q t p w"
| "run n (Pause q) w = Done (pause q w)"
| "run n (Resume q) w = resume n q w"
| "run n (Pipe q d) w = Done (pipe q d w)"
| "run n (Complete a e r) w =
     (if a < length (acts w) then next_finish n a e r w else Done w)"
| "run n (Timeout a) w =
     (if a < length (acts w) then
        (case timer (acts w ! a) of
           None \<Rightarrow> Done w
         | Some deadline \<Rightarrow>
             if deadline \<le> clock w
             then next_finish n a (Some ProcessTimedOut) (atask (acts w ! a)) w
             else Done w)
      else Done w)"
| "run n Deferred w =
     (case deferred w of
        [] \<Rightarrow> Done w
      | q # ds \<Rightarrow>
          let w1 = w\<lparr>deferred := ds\<rparr> in
          if \<not> paused (queues w1 q) \<and> waiting (queues w1 q) \<noteq> []
          then takeNext n q w1 else Done w1)"
| "run n (Tick d) w = Done (w\<lparr>clock := clock w + int d\<rparr>)"

fun run_all :: "nat \<Rightarrow> op list \<Rightarrow> world \<Rightarrow> result" where
  "run_all n [] w = Done w"
| "run_all n (x # xs) w =
     (case run n x w of
        Done w' \<Rightarrow> run_all n xs w'
      | Thrown w' \<Rightarrow> Thrown w'
      | OutOfFuel \<Rightarrow> OutOfFuel)"

definition final :: "result \<Rightarrow> world option" where
  "final r = (case r of Done w \<Rightarrow> Some w | Thrown w \<Rightarrow> Some w | OutOfFuel \<Rightarrow> None)"

definition init_world :: "(qid \<Rightarrow> factory) \<Rightarrow> int \<Rightarrow> world" where
  "init_world fs t0 =
     \<lparr>queues = (\<lambda>q. build (fs q)), acts = [], clock = t0, deferred = [], trace = []\<rparr>"

text \<open>
  The worlds a program can be in between two operations: it builds its queues with
  non-negative channel counts, then operations run one after the other; an operation that
  throws leaves its world to the caller.
\<close>

inductive reachable :: "world \<Rightarrow> bool" where
  r_init: "(\<And>q. configured (fs q)) \<Longrightarrow> (\<And>q. 0 \<le> concurrency (fs q)) \<Longrightarrow>
           reachable (init_world fs t0)"
| r_step: "reachable w \<Longrightarrow> final (run n x w) = Some w' \<Longrightarrow> reachable w'"


text \<open>
  Reading a result: whether the call returned normally, whether it threw, and the world it
  left.
\<close>

definition returned :: "result \<Rightarrow> bool" where
  "returned r = (case r of Done w \<Rightarrow> True | Thrown w \<Rightarrow> False | OutOfFuel \<Rightarrow> False)"

definition threw :: "result \<Rightarrow> bool" where
  "threw r = (case r of Done w \<Rightarrow> False | Thrown w \<Rightarrow> True | OutOfFuel \<Rightarrow> False)"

definition world_of :: "result \<Rightarrow> world" where
  "world_of r =
     (case r of
        Done w \<Rightarrow> w
      | Thrown w \<Rightarrow> w
      | OutOfFuel \<Rightarrow> init_world (\<lambda>q. QueueFactory_init) 0)"

subsection \<open>Example configurations\<close>

text \<open>
  One channel, a wait timeout of 50 ms, every listener set, and a handler that keeps its
  callback for later. In \<open>demo_world\<close> every queue is built that way.
\<close>

definition demo_factory :: factory where
  "demo_factory =
     QueueFactory_drain (QueueFactory_done (QueueFactory_failure (QueueFactory_success
       (QueueFactory_process (\<lambda>t. Later)
         (QueueFactory_wait (Some 50) (QueueFactory_channels 1 QueueFactory_init))))))"

definition demo_world :: world where
  "demo_world = init_world (\<lambda>q. demo_factory) 0"

text \<open>A paused queue with one waiting task and a free channel.\<close>

definition paused_world :: world where
  "paused_world = world_of (run_all 1 [Pause 0, Add 0 7 0] demo_world)"

text \<open>A paused queue whose two waiting tasks have waited 100 ms.\<close>

definition wait_world :: world where
  "wait_world = world_of (run_all 1 [Pause 0, Add 0 1 0, Add 0 2 0, Tick 100] demo_world)"

text \<open>
  Paused queues with two waiting tasks and one free channel: in \<open>stale_world\<close> the first
  task has passed the wait timeout, in \<open>sync_world\<close> the handler completes at once.
\<close>

definition stale_world :: world where
  "stale_world = world_of (run_all 1 [Pause 0, Add 0 1 0, Tick 100, Add 0 2 0] demo_world)"

definition sync_world :: world where
  "sync_world =
     world_of (run_all 1 [Pause 0, Add 0 1 0, Add 0 2 0]
       (init_world (\<lambda>q. QueueFactory_process (\<lambda>t. Now None t) demo_factory) 0))"

text \<open>
  The same handler on a queue that is not paused: three tasks were added while the queue was
  paused and it was resumed once, so that task 1 is done and tasks 2 and 3 wait beside the
  free channel.
\<close>

definition eager_world :: world where
  "eager_world =
     world_of (run_all 1 [Pause 0, Add 0 1 0, Add 0 2 0, Add 0 3 0, Resume 0]
       (init_world (\<lambda>q. QueueFactory_process (\<lambda>t. Now None t) demo_factory) 0))"

text \<open>
  Paused queues without wait timeout trouble: three free channels and one waiting task
  (\<open>roomy_world\<close>), two free channels and three waiting tasks (\<open>backlog_world\<close>).
\<close>

definition roomy_world :: world where
  "roomy_world =
     world_of (run_all 1 [Pause 0, Add 0 1 0]
       (init_world (\<lambda>q. QueueFactory_channels 3 demo_factory) 0))"

definition backlog_world :: world where
  "backlog_world =
     world_of (run_all 1 [Pause 0, Add 0 1 0, Add 0 2 0, Add 0 3 0]
       (init_world (\<lambda>q. QueueFactory_channels 2 (QueueFactory_wait None demo_factory)) 0))"

text \<open>
  A process timeout of 100 ms and no wait timeout: task 1 has been in the only channel for
  100 ms, task 2 waits.
\<close>

definition timeout_factory :: factory where
  "timeout_factory = QueueFactory_timeout (Some 100) (QueueFactory_wait None demo_factory)"

definition timeout_world :: world where
  "timeout_world =
     world_of (run_all 1 [Add 0 1 0, Add 0 2 0, Tick 100] (init_world (\<lambda>q. timeout_factory) 0))"

text \<open>Two channels and two failing tasks, the first failure already reported.\<close>

definition pair_world :: world where
  "pair_world =
     world_of (run_all 1 [Add 0 1 0, Add 0 2 0, Complete 0 (Some (HandlerError 1)) 1]
       (init_world (\<lambda>q. QueueFactory_channels 2 demo_factory) 0))"

text \<open>
  Priority mode with one channel and no listeners: task 0 occupies the channel, then tasks
  with priorities 1, 5 and 3 (named after their priorities) are added.
\<close>

definition priority_factory :: factory where
  "priority_factory =
     QueueFactory_priority True
       (QueueFactory_process (\<lambda>t. Later) (QueueFactory_channels 1 QueueFactory_init))"

definition priority_world :: world where
  "priority_world =
     world_of (run_all 1 [Add 0 0 0, Add 0 1 1, Add 0 5 5, Add 0 3 3]
       (init_world (\<lambda>q. priority_factory) 0))"






section \<open>Notions for the proofs\<close>

subsection \<open>Atomic state changes\<close>

text \<open>
  Every call is a sequence of the following atomic changes of the world. The guards record
  what the code has checked when it makes the change: a task is admitted only under
  \<^verbatim>\<open>count < concurrency\<close> (\<open>ms_admit\<close>; \<open>ms_stall\<close> when no handler is set and the
  call throws), a channel is released only by the first call of a completion callback,
  \<^verbatim>\<open>onDrain\<close> is called only when \<^verbatim>\<open>count\<close> is zero.
\<close>

inductive mstep :: "world \<Rightarrow> world \<Rightarrow> bool" where
  ms_success: "mstep w (emit (Success q r) w)"
| ms_failure: "mstep w (emit (Failure q err r) w)"
| ms_finished: "mstep w (emit (Finished q e r) w)"
| ms_drain: "count (queues w q) = 0 \<Longrightarrow> mstep w (emit (Drain q) w)"
| ms_enqueue: "mstep w (upd_queue q (\<lambda>s. s\<lparr>waiting :=
              (if priorityMode s then sort_waiting else id)
                (waiting s @ [\<lparr>task = t, start = clock w, priority = p\<rparr>])\<rparr>) w)"
| ms_dequeue: "waiting (queues w q) = e # rest \<Longrightarrow>
     mstep w (upd_queue q (\<lambda>s. s\<lparr>waiting := rest\<rparr>) w)"
| ms_admit: "count (queues w q) < concurrency (queues w q) \<Longrightarrow>
     onProcess (queues w q) = Some handler \<Longrightarrow>
     mstep w (emit (Process q t) ((upd_queue q (\<lambda>s. s\<lparr>count := count s + 1\<rparr>) w)
        \<lparr>acts := acts w @ [\<lparr>owner = q, atask = t, finished = False, timer = tm\<rparr>]\<rparr>))"
| ms_stall: "count (queues w q) < concurrency (queues w q) \<Longrightarrow>
     onProcess (queues w q) = None \<Longrightarrow>
     mstep w ((upd_queue q (\<lambda>s. s\<lparr>count := count s + 1\<rparr>) w)
        \<lparr>acts := acts w @ [\<lparr>owner = q, atask = t, finished = False, timer = tm\<rparr>]\<rparr>)"
| ms_release: "a < length (acts w) \<Longrightarrow> \<not> finished (acts w ! a) \<Longrightarrow>
     mstep w (upd_queue (owner (acts w ! a)) (\<lambda>s. s\<lparr>count := count s - 1\<rparr>)
        (w\<lparr>acts := (acts w)[a := (acts w ! a)\<lparr>finished := True, timer := None\<rparr>]\<rparr>))"
| ms_defer: "mstep w (w\<lparr>deferred := deferred w @ [q]\<rparr>)"
| ms_pop: "deferred w = q # ds \<Longrightarrow> mstep w (w\<lparr>deferred := ds\<rparr>)"
| ms_pause: "mstep w (pause q w)"
| ms_unpause: "mstep w (upd_queue q (\<lambda>s. s\<lparr>paused := False\<rparr>) w)"
| ms_pipe: "mstep w (pipe q d w)"
| ms_tick: "mstep w (w\<lparr>clock := clock w + int d\<rparr>)"

subsection \<open>Invariants and observations\<close>

text \<open>
  The unfinished activation records of a queue are the tasks in its channels;
  \<^verbatim>\<open>count\<close> equals their number and stays within \<^verbatim>\<open>concurrency\<close>.
\<close>

definition occupancy :: "world \<Rightarrow> qid \<Rightarrow> nat" where
  "occupancy w q = length (filter (\<lambda>a. owner a = q \<and> \<not> finished a) (acts w))"

definition count_inv :: "world \<Rightarrow> bool" where
  "count_inv w \<longleftrightarrow>
     (\<forall>q. count (queues w q) = int (occupancy w q) \<and>
          count (queues w q) \<le> concurrency (queues w q))"

text \<open>An activation whose completion callback has run: its flag is set and its timer gone.\<close>

definition settled :: "world \<Rightarrow> nat \<Rightarrow> bool" where
  "settled w a \<longleftrightarrow> a < length (acts w) \<and> finished (acts w ! a) \<and> timer (acts w ! a) = None"

text \<open>The waiting list in descending order of priority.\<close>

definition by_priority :: "entry list \<Rightarrow> bool" where
  "by_priority es \<longleftrightarrow> sorted_wrt (\<lambda>x y. priority y \<le> priority x) es"

definition sorted_inv :: "world \<Rightarrow> bool" where
  "sorted_inv w \<longleftrightarrow> (\<forall>q. priorityMode (queues w q) \<longrightarrow> by_priority (waiting (queues w q)))"





text \<open>
  The handler calls recorded in the trace, in order, and the fields of a queue that
  \<open>takeNext\<close> leaves alone.
\<close>

fun start_of :: "event \<Rightarrow> (qid \<times> task) list" where
  "start_of (Process q t) = [(q, t)]"
| "start_of (Success q r) = []"
| "start_of (Failure q err r) = []"
| "start_of (Finished q e r) = []"
| "start_of (Drain q) = []"

definition started :: "world \<Rightarrow> (qid \<times> task) list" where
  "started w = concat (map start_of (trace w))"

definition same_queue :: "qid \<Rightarrow> world \<Rightarrow> world \<Rightarrow> bool" where
  "same_queue q w w' \<longleftrightarrow>
     paused (queues w' q) = paused (queues w q) \<and>
     destination (queues w' q) = destination (queues w q) \<and>
     onProcess (queues w' q) = onProcess (queues w q) \<and>
     waitTimeout (queues w' q) = waitTimeout (queues w q) \<and>
     concurrency (queues w' q) = concurrency (queues w q) \<and>
     clock w' = clock w"

section \<open>Lemmas\<close>

subsection \<open>Every call is a sequence of atomic changes\<close>

lemma final_simps [simp]:
  "final (Done w) = Some w" "final (Thrown w) = Some w" "final OutOfFuel = None"
  by (simp_all add: final_def)

lemma step_then: "mstep w w1 \<Longrightarrow> mstep\<^sup>*\<^sup>* w1 w' \<Longrightarrow> mstep\<^sup>*\<^sup>* w w'"
  by (rule converse_rtranclp_into_rtranclp)

lemma upd_queue_simps [simp]:
  "queues (upd_queue q f w) = (queues w)(q := f (queues w q))"
  "acts (upd_queue q f w) = acts w"
  "clock (upd_queue q f w) = clock w"
  "deferred (upd_queue q f w) = deferred w"
  "trace (upd_queue q f w) = trace w"
  by (simp_all add: upd_queue_def)

lemma emit_simps [simp]:
  "queues (emit e w) = queues w"
  "acts (emit e w) = acts w"
  "clock (emit e w) = clock w"
  "deferred (emit e w) = deferred w"
  "trace (emit e w) = trace w @ [e]"
  by (simp_all add: emit_def)

lemma is_expired_upd [simp]:
  "is_expired (upd_queue q (\<lambda>s. s\<lparr>waiting := rest\<rparr>) w) q' e = is_expired w q' e"
  by (simp add: is_expired_def split: option.splits)

lemma drain_steps:
  "mstep\<^sup>*\<^sup>* w (if count (queues w q) = 0 \<and> c then emit (Drain q) w else w)"
  by (simp add: ms_drain r_into_rtranclp)

lemma run_msteps_aux:
  "final (add n q t p w) = Some w' \<Longrightarrow> mstep\<^sup>*\<^sup>* w w'"
  "count (queues w q) < concurrency (queues w q) \<Longrightarrow>
     final (next_task n q t w) = Some w' \<Longrightarrow> mstep\<^sup>*\<^sup>* w w'"
  "a < length (acts w) \<Longrightarrow> final (next_finish n a e r w) = Some w' \<Longrightarrow> mstep\<^sup>*\<^sup>* w w'"
  "final (takeNext n q w) = Some w' \<Longrightarrow> mstep\<^sup>*\<^sup>* w w'"
  "final (finish n q e r w) = Some w' \<Longrightarrow> mstep\<^sup>*\<^sup>* w w'"
proof (induct n q t p w and n q t w and n a e r w and n q w and n q e r w
    arbitrary: w' and w' and w' and w' and w'
    rule: add_next_task_next_finish_takeNext_finish.induct)
  case (1 n q t p w)
  show ?case
  proof (cases "\<not> paused (queues w q) \<and> count (queues w q) < concurrency (queues w q)")
    case True
    with "1.prems" have "final (next_task n q t w) = Some w'"
      by (simp add: add.simps)
    with True "1.hyps" show ?thesis by blast
  next
    case False
    with "1.prems" have "w' = upd_queue q (\<lambda>s. s\<lparr>waiting :=
              (if priorityMode s then sort_waiting else id)
                (waiting s @ [\<lparr>task = t, start = clock w, priority = p\<rparr>])\<rparr>) w"
      by (auto simp add: add.simps)
    then show ?thesis by (auto intro: ms_enqueue)
  qed
next
  case (2 n q t w)
  let ?w1 = "upd_queue q (\<lambda>s. s\<lparr>count := count s + 1\<rparr>) w"
  let ?tm = "case processTimeout (queues ?w1 q) of None \<Rightarrow> None | Some d \<Rightarrow> Some (clock ?w1 + d)"
  let ?w2 = "?w1\<lparr>acts := acts ?w1 @ [\<lparr>owner = q, atask = t, finished = False, timer = ?tm\<rparr>]\<rparr>"
  let ?w3 = "emit (Process q t) ?w2"
  show ?case
  proof (cases "onProcess (queues ?w2 q)")
    case None
    then have "mstep w ?w2"
      using ms_stall [OF "2.prems"(1), of t ?tm] by simp
    moreover from None "2.prems"(2) have "w' = ?w2"
      by (simp add: next_task.simps Let_def)
    ultimately show ?thesis by blast
  next
    case (Some h)
    then have s1: "mstep w ?w3"
      using ms_admit [OF "2.prems"(1), of h t ?tm] by simp
    show ?thesis
    proof (cases "h t")
      case Later
      with Some "2.prems"(2) have "w' = ?w3"
        by (simp add: next_task.simps Let_def)
      with s1 show ?thesis by blast
    next
      case (Now e r)
      show ?thesis
      proof (cases n)
        case 0
        with Some Now "2.prems"(2) show ?thesis
          by (simp add: next_task.simps Let_def)
      next
        case (Suc m)
        with Some Now "2.prems"(2)
        have f: "final (next_finish m (length (acts w)) e r ?w3) = Some w'"
          by (simp add: next_task.simps Let_def)
        have "mstep\<^sup>*\<^sup>* ?w3 w'"
          by (rule "2.hyps" [OF refl refl refl refl Some refl Now Suc _ f]) simp
        with s1 show ?thesis by (blast intro: step_then)
      qed
    qed
  qed
next
  case (3 n a e r w)
  let ?q = "owner (acts w ! a)"
  let ?w1 = "w\<lparr>acts := (acts w)[a := (acts w ! a)\<lparr>finished := True, timer := None\<rparr>]\<rparr>"
  let ?w2 = "upd_queue ?q (\<lambda>s. s\<lparr>count := count s - 1\<rparr>) ?w1"
  show ?case
  proof (cases "finished (acts w ! a)")
    case True
    with "3.prems"(2) show ?thesis by (simp add: next_finish.simps)
  next
    case False
    have s1: "mstep w ?w2"
      using ms_release [OF "3.prems"(1) False] by simp
    have IH5: "\<And>w3. final (finish n ?q e r ?w2) = Some w3 \<Longrightarrow> mstep\<^sup>*\<^sup>* ?w2 w3"
      by (rule "3.hyps"(1) [OF False refl refl refl])
    show ?thesis
    proof (cases "finish n ?q e r ?w2")
      case (Done w3)
      have s2: "mstep\<^sup>*\<^sup>* ?w2 w3" using IH5 Done by simp
      show ?thesis
      proof (cases "\<not> paused (queues w3 ?q) \<and> waiting (queues w3 ?q) \<noteq> []")
        case True
        with False Done "3.prems"(2) have "final (takeNext n ?q w3) = Some w'"
          by (simp add: next_finish.simps Let_def)
        then have "mstep\<^sup>*\<^sup>* w3 w'"
          by (rule "3.hyps"(2) [OF False refl refl refl Done True])
        with s1 s2 show ?thesis by (meson step_then rtranclp_trans)
      next
        case F: False
        with False Done "3.prems"(2) have "w' = w3"
          by (auto simp add: next_finish.simps Let_def)
        with s1 s2 show ?thesis by (blast intro: step_then)
      qed
    next
      case (Thrown w3)
      have s2: "mstep\<^sup>*\<^sup>* ?w2 w3" using IH5 Thrown by simp
      from False Thrown "3.prems"(2) have "w' = w3"
        by (simp add: next_finish.simps Let_def)
      with s1 s2 show ?thesis by (blast intro: step_then)
    next
      case OutOfFuel
      with False "3.prems"(2) show ?thesis
        by (simp add: next_finish.simps Let_def)
    qed
  qed
next
  case (4 n q w)
  show ?case
  proof (cases "waiting (queues w q)")
    case Nil
    with "4.prems" show ?thesis by (simp add: takeNext.simps)
  next
    case (Cons e rest)
    let ?w1 = "upd_queue q (\<lambda>s. s\<lparr>waiting := rest\<rparr>) w"
    have s1: "mstep w ?w1" using Cons by (rule ms_dequeue)
    show ?thesis
    proof (cases "is_expired ?w1 q e")
      case True
      have IH5: "\<And>w2. final (finish n q (Some WaitingTimedOut) (task e) ?w1) = Some w2 \<Longrightarrow> mstep\<^sup>*\<^sup>* ?w1 w2"
        by (rule "4.hyps"(1) [OF Cons refl True])
      show ?thesis
      proof (cases "finish n q (Some WaitingTimedOut) (task e) ?w1")
        case (Done w2)
        have s2: "mstep\<^sup>*\<^sup>* ?w1 w2" using IH5 Done by simp
        from Cons True Done "4.prems"
        have "w' = (if waiting (queues w2 q) \<noteq> [] then w2\<lparr>deferred := deferred w2 @ [q]\<rparr> else w2)"
          by (simp add: takeNext.simps Let_def)
        then have "mstep\<^sup>*\<^sup>* w2 w'"
          by (auto intro: ms_defer)
        with s1 s2 show ?thesis by (meson step_then rtranclp_trans)
      next
        case (Thrown w2)
        have s2: "mstep\<^sup>*\<^sup>* ?w1 w2" using IH5 Thrown by simp
        from Cons True Thrown "4.prems" have "w' = w2"
          by (simp add: takeNext.simps Let_def)
        with s1 s2 show ?thesis by (blast intro: step_then)
      next
        case OutOfFuel
        with Cons True "4.prems" show ?thesis
          by (simp add: takeNext.simps Let_def)
      qed
    next
      case False
      show ?thesis
      proof (cases "count (queues ?w1 q) < concurrency (queues ?w1 q)")
        case True
        with Cons False "4.prems" have "final (next_task n q (task e) ?w1) = Some w'"
          by (simp add: takeNext.simps Let_def)
        then have "mstep\<^sup>*\<^sup>* ?w1 w'"
          by (rule "4.hyps"(2) [OF Cons refl False True True])
        with s1 show ?thesis by (blast intro: step_then)
      next
        case F: False
        with Cons False "4.prems" have "w' = ?w1"
          by (simp add: takeNext.simps Let_def)
        with s1 show ?thesis by blast
      qed
    qed
  qed
next
  case (5 n q e r w)
  let ?s = "queues w q"
  show ?case
  proof (cases e)
    case (Some err)
    let ?w1 = "if onFailure ?s then emit (Failure q err r) w else w"
    let ?w2 = "if onDone ?s then emit (Finished q e r) ?w1 else ?w1"
    let ?w3 = "if count (queues ?w2 q) = 0 \<and> onDrain ?s then emit (Drain q) ?w2 else ?w2"
    have "mstep\<^sup>*\<^sup>* w ?w1" by (auto intro: ms_failure)
    moreover have "mstep\<^sup>*\<^sup>* ?w1 ?w2" by (auto intro: ms_finished)
    moreover have "mstep\<^sup>*\<^sup>* ?w2 ?w3" by (rule drain_steps)
    moreover have "finish n q e r w = Done ?w3"
      using Some by (simp add: finish.simps Let_def)
    with "5.prems" have "Some w' = Some ?w3"
      by (simp only: final_simps)
    then have "w' = ?w3"
      by (simp only: option.inject)
    ultimately show ?thesis by (meson rtranclp_trans)
  next
    case None
    let ?w1 = "if onSuccess ?s then emit (Success q r) w else w"
    have s1: "mstep\<^sup>*\<^sup>* w ?w1" by (auto intro: ms_success)
    let ?fwd = "case destination (queues ?w1 q) of None \<Rightarrow> Done ?w1 | Some d \<Rightarrow> add n d r 0 ?w1"
    have IH1: "\<And>w2. final ?fwd = Some w2 \<Longrightarrow> mstep\<^sup>*\<^sup>* ?w1 w2"
    proof (cases "destination (queues ?w1 q)")
      case N: None
      fix w2 assume "final ?fwd = Some w2"
      with N show "mstep\<^sup>*\<^sup>* ?w1 w2" by simp
    next
      case S: (Some d)
      fix w2 assume "final ?fwd = Some w2"
      with S have "final (add n d r 0 ?w1) = Some w2" by simp
      then show "mstep\<^sup>*\<^sup>* ?w1 w2"
        by (rule "5.hyps" [OF refl None refl S])
    qed
    show ?thesis
    proof (cases ?fwd)
      case (Done w2)
      let ?w3 = "if onDone ?s then emit (Finished q e r) w2 else w2"
      let ?w4 = "if count (queues ?w3 q) = 0 \<and> onDrain ?s then emit (Drain q) ?w3 else ?w3"
      have s2: "mstep\<^sup>*\<^sup>* ?w1 w2" using IH1 Done by simp
      have s3: "mstep\<^sup>*\<^sup>* w2 ?w3" by (auto intro: ms_finished)
      have s4: "mstep\<^sup>*\<^sup>* ?w3 ?w4" by (rule drain_steps)
      have "finish n q e r w = Done ?w4"
        using None Done by (simp add: finish.simps Let_def)
      with "5.prems" have "Some w' = Some ?w4"
        by (simp only: final_simps)
      then have "w' = ?w4"
        by (simp only: option.inject)
      with s1 s2 s3 s4 show ?thesis by (meson rtranclp_trans)
    next
      case (Thrown w2)
      have s2: "mstep\<^sup>*\<^sup>* ?w1 w2" using IH1 Thrown by simp
      from None Thrown "5.prems" have "w' = w2"
        by (simp add: finish.simps Let_def)
      with s1 s2 show ?thesis by (meson rtranclp_trans)
    next
      case OutOfFuel
      with None "5.prems" show ?thesis
        by (simp add: finish.simps Let_def)
    qed
  qed
qed


lemma resume_loop_msteps:
  "final (resume_loop n q k w) = Some w' \<Longrightarrow> mstep\<^sup>*\<^sup>* w w'"
proof (induction k arbitrary: w)
  case 0
  then show ?case by simp
next
  case (Suc k)
  show ?case
  proof (cases "takeNext n q w")
    case (Done w1)
    with Suc.prems have "final (resume_loop n q k w1) = Some w'" by simp
    then have "mstep\<^sup>*\<^sup>* w1 w'" by (rule Suc.IH)
    moreover have "mstep\<^sup>*\<^sup>* w w1"
      by (rule run_msteps_aux(4) [of n q]) (simp add: Done)
    ultimately show ?thesis by (meson rtranclp_trans)
  next
    case (Thrown w1)
    with Suc.prems have "w' = w1" by simp
    with Thrown show ?thesis by (intro run_msteps_aux(4) [of n q]) simp
  next
    case OutOfFuel
    with Suc.prems show ?thesis by simp
  qed
qed

lemma resume_msteps:
  assumes "final (resume n q w) = Some w'"
  shows "mstep\<^sup>*\<^sup>* w w'"
proof -
  let ?body = "if waiting (queues w q) \<noteq> []
      then resume_loop n q (nat (concurrency (queues w q) - count (queues w q))) w
      else Done w"
  have body: "\<And>w1. final ?body = Some w1 \<Longrightarrow> mstep\<^sup>*\<^sup>* w w1"
    by (auto dest: resume_loop_msteps split: if_splits)
  show ?thesis
  proof (cases ?body)
    case (Done w1)
    with assms have "w' = upd_queue q (\<lambda>s. s\<lparr>paused := False\<rparr>) w1"
      by (simp add: resume_def)
    then have "mstep w1 w'" by (simp add: ms_unpause)
    moreover have "mstep\<^sup>*\<^sup>* w w1" using body Done by simp
    ultimately show ?thesis by simp
  next
    case (Thrown w1)
    with assms have "w' = w1" by (simp add: resume_def)
    with body Thrown show ?thesis by simp
  next
    case OutOfFuel
    with assms show ?thesis by (simp add: resume_def)
  qed
qed

lemma run_msteps:
  assumes "final (run n x w) = Some w'"
  shows "mstep\<^sup>*\<^sup>* w w'"
proof (cases x)
  case (Add q t p)
  with assms show ?thesis by (simp add: run_msteps_aux(1))
next
  case (Pause q)
  with assms show ?thesis by (auto intro: ms_pause)
next
  case (Resume q)
  with assms show ?thesis by (simp add: resume_msteps)
next
  case (Pipe q d)
  with assms show ?thesis by (auto intro: ms_pipe)
next
  case (Complete a e r)
  with assms show ?thesis
    by (auto simp: run_msteps_aux(3) split: if_splits)
next
  case (Timeout a)
  with assms show ?thesis
    by (auto simp: run_msteps_aux(3) split: if_splits option.splits)
next
  case Deferred
  show ?thesis
  proof (cases "deferred w")
    case Nil
    with Deferred assms show ?thesis by simp
  next
    case (Cons q ds)
    let ?w1 = "w\<lparr>deferred := ds\<rparr>"
    have "mstep w ?w1" using Cons by (rule ms_pop)
    moreover have "mstep\<^sup>*\<^sup>* ?w1 w'"
      using Deferred Cons assms
      by (auto simp: Let_def run_msteps_aux(4) split: if_splits)
    ultimately show ?thesis by (rule step_then)
  qed
next
  case (Tick d)
  with assms show ?thesis by (auto intro: ms_tick)
qed

lemma reachable_msteps:
  "reachable w \<Longrightarrow>
     \<exists>fs t0. (\<forall>q. configured (fs q) \<and> 0 \<le> concurrency (fs q)) \<and>
       mstep\<^sup>*\<^sup>* (init_world fs t0) w"
proof (induction rule: reachable.induct)
  case (r_init fs t0)
  then show ?case by blast
next
  case (r_step w n x w')
  then show ?case by (meson run_msteps rtranclp_trans)
qed

subsection \<open>The channel count\<close>

lemma configured_fresh:
  "configured f \<Longrightarrow> count f = 0 \<and> waiting f = [] \<and> destination f = None"
  by (induction rule: configured.induct)
    (simp_all add: QueueFactory_init_def QueueFactory_priority_def QueueFactory_wait_def
      QueueFactory_timeout_def QueueFactory_channels_def QueueFactory_process_def
      QueueFactory_done_def QueueFactory_success_def QueueFactory_failure_def
      QueueFactory_drain_def)

lemma filter_update_length:
  "a < length xs \<Longrightarrow> P (xs ! a) \<Longrightarrow> \<not> P y \<Longrightarrow>
     Suc (length (filter P (xs[a := y]))) = length (filter P xs)"
proof (induction xs arbitrary: a)
  case Nil
  then show ?case by simp
next
  case (Cons x xs)
  then show ?case by (cases a) auto
qed

lemma filter_update_same:
  "a < length xs \<Longrightarrow> \<not> P (xs ! a) \<Longrightarrow> \<not> P y \<Longrightarrow>
     filter P (xs[a := y]) = filter P xs"
proof (induction xs arbitrary: a)
  case Nil
  then show ?case by simp
next
  case (Cons x xs)
  then show ?case by (cases a) auto
qed

lemma mstep_count_inv:
  assumes "mstep w w'" and "count_inv w"
  shows "count_inv w'"
proof -
  have eq: "\<And>q. count (queues w q) = int (occupancy w q)"
    and le: "\<And>q. count (queues w q) \<le> concurrency (queues w q)"
    using assms(2) unfolding count_inv_def by blast+
  from assms(1) show ?thesis
  proof (cases rule: mstep.cases)
    case (ms_admit q handler t tm)
    have "occupancy w' q' = (if q' = q then Suc (occupancy w q) else occupancy w q')" for q'
      using ms_admit(1) by (simp add: occupancy_def)
    moreover have "count (queues w' q') = (if q' = q then count (queues w q) + 1
        else count (queues w q'))" for q'
      using ms_admit(1) by simp
    moreover have "concurrency (queues w' q') = concurrency (queues w q')" for q'
      using ms_admit(1) by simp
    ultimately show ?thesis
      using eq le ms_admit(2) by (simp add: count_inv_def)
  next
    case (ms_stall q t tm)
    have "occupancy w' q' = (if q' = q then Suc (occupancy w q) else occupancy w q')" for q'
      using ms_stall(1) by (simp add: occupancy_def)
    moreover have "count (queues w' q') = (if q' = q then count (queues w q) + 1
        else count (queues w q'))" for q'
      using ms_stall(1) by simp
    moreover have "concurrency (queues w' q') = concurrency (queues w q')" for q'
      using ms_stall(1) by simp
    ultimately show ?thesis
      using eq le ms_stall(2) by (simp add: count_inv_def)
  next
    case (ms_release a)
    let ?P = "\<lambda>q a. owner a = q \<and> \<not> finished a"
    let ?y = "(acts w ! a)\<lparr>finished := True, timer := None\<rparr>"
    let ?o = "owner (acts w ! a)"
    have "Suc (length (filter (?P ?o) ((acts w)[a := ?y]))) = length (filter (?P ?o) (acts w))"
      using ms_release by (intro filter_update_length) simp_all
    then have own: "int (occupancy w' ?o) = int (occupancy w ?o) - 1"
      using ms_release(1) by (simp add: occupancy_def)
    have "filter (?P q) ((acts w)[a := ?y]) = filter (?P q) (acts w)" if "q \<noteq> ?o" for q
      using ms_release that by (intro filter_update_same) simp_all
    then have other: "occupancy w' q = occupancy w q" if "q \<noteq> ?o" for q
      using ms_release(1) that by (simp add: occupancy_def)
    have cnt: "count (queues w' q) = (if q = ?o then count (queues w q) - 1
        else count (queues w q))" for q
      using ms_release(1) by simp
    have con: "concurrency (queues w' q) = concurrency (queues w q)" for q
      using ms_release(1) by simp
    show ?thesis
      unfolding count_inv_def
    proof (intro allI)
      fix q
      show "count (queues w' q) = int (occupancy w' q) \<and>
            count (queues w' q) \<le> concurrency (queues w' q)"
      proof (cases "q = ?o")
        case True
        with own cnt [of q] con [of q] eq [of q] le [of q] show ?thesis by simp
      next
        case False
        with other [OF False] cnt [of q] con [of q] eq [of q] le [of q] show ?thesis by simp
      qed
    qed
  qed (use eq le in \<open>simp_all add: count_inv_def occupancy_def pause_def pipe_def\<close>)
qed

lemma msteps_count_inv:
  "mstep\<^sup>*\<^sup>* w w' \<Longrightarrow> count_inv w \<Longrightarrow> count_inv w'"
  by (induction rule: rtranclp_induct) (auto intro: mstep_count_inv)

lemma init_count_inv:
  "(\<forall>q. configured (fs q) \<and> 0 \<le> concurrency (fs q)) \<Longrightarrow> count_inv (init_world fs t0)"
  by (simp add: count_inv_def occupancy_def init_world_def build_def configured_fresh)

lemma reachable_count_inv: "reachable w \<Longrightarrow> count_inv w"
  using reachable_msteps msteps_count_inv init_count_inv by blast


subsection \<open>Runs from the example world\<close>

lemma configured_demo: "configured demo_factory"
  unfolding demo_factory_def by (intro configured.intros)

lemma reachable_demo: "reachable demo_world"
  unfolding demo_world_def
  by (rule r_init) (simp_all add: configured_demo, code_simp)

lemma returned_Done: "returned r \<Longrightarrow> r = Done (world_of r)"
  by (cases r) (simp_all add: returned_def world_of_def)

lemma reachable_run_all:
  "reachable w \<Longrightarrow> returned (run_all n xs w) \<Longrightarrow> reachable (world_of (run_all n xs w))"
proof (induction xs arbitrary: w)
  case Nil
  then show ?case by (simp add: world_of_def)
next
  case (Cons x xs)
  show ?case
  proof (cases "run n x w")
    case (Done w1)
    with Cons.prems(1) have "reachable w1"
      by (auto intro: r_step [of w n x w1])
    with Cons.IH [of w1] Cons.prems(2) Done show ?thesis by simp
  next
    case (Thrown w1)
    with Cons.prems(2) show ?thesis by (simp add: returned_def)
  next
    case OutOfFuel
    with Cons.prems(2) show ?thesis by (simp add: returned_def)
  qed
qed





subsection \<open>Completion\<close>

lemma finish_error:
  "finish n q (Some err) r w =
     Done (w\<lparr>trace := trace w
        @ (if onFailure (queues w q) then [Failure q err r] else [])
        @ (if onDone (queues w q) then [Finished q (Some err) r] else [])
        @ (if count (queues w q) = 0 \<and> onDrain (queues w q) then [Drain q] else [])\<rparr>)"
  by (simp add: finish.simps Let_def emit_def)

lemma is_expired_eq:
  "clock w' = clock w \<Longrightarrow> waitTimeout (queues w' q) = waitTimeout (queues w q) \<Longrightarrow>
     is_expired w' q e = is_expired w q e"
  by (simp add: is_expired_def split: option.splits)

lemma next_finish_error:
  assumes "\<not> finished (acts w ! a)"
  shows "next_finish n a (Some err) r w =
    (if \<not> paused (queues w (owner (acts w ! a))) \<and> waiting (queues w (owner (acts w ! a))) \<noteq> []
     then takeNext n (owner (acts w ! a)) else Done)
      (w\<lparr>acts := (acts w)[a := (acts w ! a)\<lparr>finished := True, timer := None\<rparr>],
         queues := (queues w)(owner (acts w ! a) :=
            (queues w (owner (acts w ! a)))\<lparr>count := count (queues w (owner (acts w ! a))) - 1\<rparr>),
         trace := trace w
           @ (if onFailure (queues w (owner (acts w ! a)))
              then [Failure (owner (acts w ! a)) err r] else [])
           @ (if onDone (queues w (owner (acts w ! a)))
              then [Finished (owner (acts w ! a)) (Some err) r] else [])
           @ (if count (queues w (owner (acts w ! a))) = 1 \<and> onDrain (queues w (owner (acts w ! a)))
              then [Drain (owner (acts w ! a))] else [])\<rparr>)"
  using assms by (simp add: next_finish.simps finish_error Let_def upd_queue_def)

lemma mstep_settled:
  assumes "mstep w w'" and "settled w a"
  shows "settled w' a"
  using assms
proof (cases rule: mstep.cases)
  case (ms_release b)
  with assms(2) have "b \<noteq> a" by (auto simp: settled_def)
  with ms_release assms(2) show ?thesis by (simp add: settled_def)
qed (auto simp: settled_def nth_append pause_def pipe_def)

lemma msteps_settled: "mstep\<^sup>*\<^sup>* w w' \<Longrightarrow> settled w a \<Longrightarrow> settled w' a"
  by (induction rule: rtranclp_induct) (auto intro: mstep_settled)

lemma next_finish_settles:
  assumes "a < length (acts w)" and "\<not> finished (acts w ! a)"
    and "final (next_finish n a e r w) = Some w1"
  shows "settled w1 a"
proof -
  let ?q = "owner (acts w ! a)"
  let ?w1 = "w\<lparr>acts := (acts w)[a := (acts w ! a)\<lparr>finished := True, timer := None\<rparr>]\<rparr>"
  let ?w2 = "upd_queue ?q (\<lambda>s. s\<lparr>count := count s - 1\<rparr>) ?w1"
  have s2: "settled ?w2 a" using assms(1) by (simp add: settled_def)
  show ?thesis
  proof (cases "finish n ?q e r ?w2")
    case (Done w3)
    then have "mstep\<^sup>*\<^sup>* ?w2 w3"
      by (intro run_msteps_aux(5) [of n ?q e r]) simp
    with s2 have s3: "settled w3 a" by (rule msteps_settled [rotated])
    show ?thesis
    proof (cases "\<not> paused (queues w3 ?q) \<and> waiting (queues w3 ?q) \<noteq> []")
      case True
      with assms(2,3) Done have "final (takeNext n ?q w3) = Some w1"
        by (simp add: next_finish.simps Let_def)
      then have "mstep\<^sup>*\<^sup>* w3 w1" by (rule run_msteps_aux(4))
      with s3 show ?thesis by (rule msteps_settled [rotated])
    next
      case False
      with assms(2,3) Done have "w1 = w3"
        by (auto simp add: next_finish.simps Let_def)
      with s3 show ?thesis by simp
    qed
  next
    case (Thrown w3)
    then have "mstep\<^sup>*\<^sup>* ?w2 w3"
      by (intro run_msteps_aux(5) [of n ?q e r]) simp
    with s2 have "settled w3 a" by (rule msteps_settled [rotated])
    moreover from assms(2,3) Thrown have "w1 = w3"
      by (simp add: next_finish.simps Let_def)
    ultimately show ?thesis by simp
  next
    case OutOfFuel
    with assms(2,3) show ?thesis by (simp add: next_finish.simps Let_def)
  qed
qed

lemma settled_ignored:
  assumes "settled w a"
  shows "next_finish m a e r w = Done w"
    and "run m (Complete a e r) w = Done w"
    and "run m (Timeout a) w = Done w"
  using assms unfolding settled_def by (simp_all add: next_finish.simps)

lemma final_returned: "returned r \<Longrightarrow> final r = Some (world_of r)"
  by (cases r) (simp_all add: returned_def world_of_def)





subsection \<open>Finish\<close>

lemma finish_success:
  "finish n q None r w =
     (case (case destination (queues w q) of
              None \<Rightarrow> Done (if onSuccess (queues w q) then emit (Success q r) w else w)
            | Some d \<Rightarrow> add n d r 0 (if onSuccess (queues w q) then emit (Success q r) w else w)) of
        Done w2 \<Rightarrow>
          Done (if count (queues w2 q) = 0 \<and> onDrain (queues w q)
                then emit (Drain q) (if onDone (queues w q) then emit (Finished q None r) w2 else w2)
                else (if onDone (queues w q) then emit (Finished q None r) w2 else w2))
      | Thrown w2 \<Rightarrow> Thrown w2
      | OutOfFuel \<Rightarrow> OutOfFuel)"
  by (simp add: finish.simps Let_def split: result.splits option.splits)

lemma finish_unpiped:
  assumes "destination (queues w q) = None"
  shows "finish n q None r w =
     Done (w\<lparr>trace := trace w
        @ (if onSuccess (queues w q) then [Success q r] else [])
        @ (if onDone (queues w q) then [Finished q None r] else [])
        @ (if count (queues w q) = 0 \<and> onDrain (queues w q) then [Drain q] else [])\<rparr>)"
  using assms by (simp add: finish_success emit_def)

lemma next_finish_unpiped:
  assumes "\<not> finished (acts w ! a)" and "destination (queues w (owner (acts w ! a))) = None"
  shows "next_finish n a None r w =
    (if \<not> paused (queues w (owner (acts w ! a))) \<and> waiting (queues w (owner (acts w ! a))) \<noteq> []
     then takeNext n (owner (acts w ! a)) else Done)
      (w\<lparr>acts := (acts w)[a := (acts w ! a)\<lparr>finished := True, timer := None\<rparr>],
         queues := (queues w)(owner (acts w ! a) :=
            (queues w (owner (acts w ! a)))\<lparr>count := count (queues w (owner (acts w ! a))) - 1\<rparr>),
         trace := trace w
           @ (if onSuccess (queues w (owner (acts w ! a)))
              then [Success (owner (acts w ! a)) r] else [])
           @ (if onDone (queues w (owner (acts w ! a)))
              then [Finished (owner (acts w ! a)) None r] else [])
           @ (if count (queues w (owner (acts w ! a))) = 1 \<and> onDrain (queues w (owner (acts w ! a)))
              then [Drain (owner (acts w ! a))] else [])\<rparr>)"
  using assms by (simp add: next_finish.simps finish_unpiped Let_def upd_queue_def)

lemma mstep_trace:
  assumes "mstep v v'"
  shows "trace v' = trace v \<or> (\<exists>ev. trace v' = trace v @ [ev] \<and>
           (\<forall>q. ev = Drain q \<longrightarrow> count (queues v q) = 0))"
  using assms by (cases rule: mstep.cases) (auto simp: pause_def pipe_def)

lemma add_waits:
  assumes "paused (queues w q) \<or> concurrency (queues w q) \<le> count (queues w q)"
  shows "add n q t p w =
     Done (w\<lparr>queues := (queues w)(q := (queues w q)\<lparr>waiting :=
        (if priorityMode (queues w q) then sort_waiting else id)
          (waiting (queues w q) @ [\<lparr>task = t, start = clock w, priority = p\<rparr>])\<rparr>)\<rparr>)"
  using assms by (auto simp add: add.simps upd_queue_def)

lemma next_task_later:
  assumes "onProcess (queues w q) = Some handler" and "handler t = Later"
  shows "next_task n q t w =
     Done (w\<lparr>queues := (queues w)(q := (queues w q)\<lparr>count := count (queues w q) + 1\<rparr>),
            acts := acts w @ [\<lparr>owner = q, atask = t, finished = False,
               timer = (case processTimeout (queues w q) of None \<Rightarrow> None
                        | Some d \<Rightarrow> Some (clock w + d))\<rparr>],
            trace := trace w @ [Process q t]\<rparr>)"
  using assms by (simp add: next_task.simps Let_def upd_queue_def emit_def split: option.splits)


subsection \<open>Order of the waiting list\<close>

lemma by_priority_sorted: "by_priority es \<longleftrightarrow> sorted (map (\<lambda>e. - priority e) es)"
  by (simp add: by_priority_def sorted_wrt_map)

lemma by_priority_sort_waiting: "by_priority (sort_waiting es)"
  by (simp add: by_priority_sorted sort_waiting_def)

lemma by_priority_Cons:
  "by_priority (x # xs) \<longleftrightarrow> (\<forall>y\<in>set xs. priority y \<le> priority x) \<and> by_priority xs"
  by (simp add: by_priority_def)

lemma sort_waiting_snoc:
  assumes "by_priority xs"
  shows "sort_waiting (xs @ [e]) =
     takeWhile (\<lambda>x. priority e \<le> priority x) xs @ e # dropWhile (\<lambda>x. priority e \<le> priority x) xs"
  using assms
proof (induction xs)
  case Nil
  then show ?case by (simp add: sort_waiting_def)
next
  case (Cons x xs)
  let ?f = "\<lambda>e. - priority e"
  let ?P = "\<lambda>x. priority e \<le> priority x"
  from Cons.prems have le: "\<forall>y\<in>set xs. priority y \<le> priority x" and s: "by_priority xs"
    by (simp_all add: by_priority_Cons)
  have IH: "sort_key ?f (xs @ [e]) = takeWhile ?P xs @ e # dropWhile ?P xs"
    using Cons.IH [OF s] by (simp add: sort_waiting_def)
  show ?case
  proof (cases "?P x")
    case True
    have "\<forall>y\<in>set (takeWhile ?P xs @ e # dropWhile ?P xs). ?f x \<le> ?f y"
      using le True by (auto dest: set_takeWhileD set_dropWhileD)
    then have "insort_key ?f x (takeWhile ?P xs @ e # dropWhile ?P xs)
        = x # takeWhile ?P xs @ e # dropWhile ?P xs"
      by (rule insort_is_Cons)
    with True IH show ?thesis by (simp add: sort_waiting_def)
  next
    case False
    with le have none: "\<forall>y\<in>set xs. \<not> ?P y" by auto
    then have tw: "takeWhile ?P xs = []" and dw: "dropWhile ?P xs = xs"
      by (cases xs; simp)+
    have "\<forall>y\<in>set xs. ?f x \<le> ?f y" using le by simp
    then have "insort_key ?f x xs = x # xs" by (rule insort_is_Cons)
    with False IH tw dw show ?thesis by (simp add: sort_waiting_def)
  qed
qed

lemma mstep_sorted_inv:
  assumes "mstep w w'" and "sorted_inv w"
  shows "sorted_inv w'"
  using assms
proof (cases rule: mstep.cases)
  case (ms_enqueue q t p)
  with assms(2) show ?thesis
    by (auto simp: sorted_inv_def by_priority_sort_waiting)
next
  case (ms_dequeue q e rest)
  with assms(2) show ?thesis
    by (auto simp: sorted_inv_def by_priority_Cons)
qed (auto simp: sorted_inv_def pause_def pipe_def)

lemma msteps_sorted_inv: "mstep\<^sup>*\<^sup>* w w' \<Longrightarrow> sorted_inv w \<Longrightarrow> sorted_inv w'"
  by (induction rule: rtranclp_induct) (auto intro: mstep_sorted_inv)

lemma init_sorted_inv:
  "(\<forall>q. configured (fs q) \<and> 0 \<le> concurrency (fs q)) \<Longrightarrow> sorted_inv (init_world fs t0)"
  by (simp add: sorted_inv_def init_world_def build_def configured_fresh by_priority_def)

lemma reachable_sorted_inv: "reachable w \<Longrightarrow> sorted_inv w"
  using reachable_msteps msteps_sorted_inv init_sorted_inv by blast

lemma takeNext_starts_head:
  assumes "waiting (queues w q) = e # rest" and "\<not> is_expired w q e"
    and "count (queues w q) < concurrency (queues w q)"
  shows "takeNext n q w = next_task n q (task e) (upd_queue q (\<lambda>s. s\<lparr>waiting := rest\<rparr>) w)"
  using assms by (simp add: takeNext.simps)

lemma configured_priority: "configured priority_factory"
  unfolding priority_factory_def by (intro configured.intros)

lemma reachable_priority: "reachable priority_world"
proof -
  have "reachable (init_world (\<lambda>q. priority_factory) 0)"
    by (rule r_init) (simp_all add: configured_priority, code_simp)
  moreover have "returned (run_all 1 [Add 0 0 0, Add 0 1 1, Add 0 5 5, Add 0 3 3]
       (init_world (\<lambda>q. priority_factory) 0))"
    by code_simp
  ultimately show ?thesis
    unfolding priority_world_def by (rule reachable_run_all)
qed


subsection \<open>Admission\<close>










lemma reachable_paused: "reachable paused_world"
proof -
  have "returned (run_all 1 [Pause 0, Add 0 7 0] demo_world)" by code_simp
  then show ?thesis
    unfolding paused_world_def by (rule reachable_run_all [OF reachable_demo])
qed


subsection \<open>Resume\<close>

lemma takeNext_pull:
  assumes wq: "waiting (queues w q) = e # rest"
    and ne: "\<not> is_expired w q e"
    and free: "count (queues w q) < concurrency (queues w q)"
    and h: "onProcess (queues w q) = Some handler"
    and mode: "handler (task e) = Later \<or>
               (paused (queues w q) \<and> destination (queues w q) = None \<and> 0 < n)"
  shows "\<exists>w'. takeNext n q w = Done w' \<and> waiting (queues w' q) = rest \<and>
           same_queue q w w' \<and>
           count (queues w q) \<le> count (queues w' q) \<and>
           count (queues w' q) \<le> count (queues w q) + 1 \<and>
           started w' = started w @ [(q, task e)]"
proof -
  let ?w1 = "upd_queue q (\<lambda>s. s\<lparr>waiting := rest\<rparr>) w"
  have tn: "takeNext n q w = next_task n q (task e) ?w1"
    using wq ne free by (rule takeNext_starts_head)
  have h1: "onProcess (queues ?w1 q) = Some handler" using h by simp
  show ?thesis
  proof (cases "handler (task e)")
    case Later
    from next_task_later [OF h1 Later, of n] tn
    show ?thesis by (simp add: same_queue_def started_def)
  next
    case (Now er r)
    with mode obtain m where n: "n = Suc m"
      and p: "paused (queues w q)" and d: "destination (queues w q) = None"
      by (cases n) auto
    let ?tm = "case processTimeout (queues w q) of None \<Rightarrow> None | Some d \<Rightarrow> Some (clock w + d)"
    let ?w3 = "?w1\<lparr>queues := (queues ?w1)(q := (queues ?w1 q)\<lparr>count := count (queues ?w1 q) + 1\<rparr>),
            acts := acts ?w1 @ [\<lparr>owner = q, atask = task e, finished = False, timer = ?tm\<rparr>],
            trace := trace ?w1 @ [Process q (task e)]\<rparr>"
    have nt: "next_task n q (task e) ?w1 = next_finish m (length (acts w)) er r ?w3"
      using h1 Now n
      by (simp add: next_task.simps Let_def upd_queue_def emit_def split: option.splits)
    have unf: "\<not> finished (acts ?w3 ! length (acts w))" by simp
    have own: "owner (acts ?w3 ! length (acts w)) = q" by simp
    show ?thesis
    proof (cases er)
      case None
      have "destination (queues ?w3 (owner (acts ?w3 ! length (acts w)))) = None"
        using d by simp
      from next_finish_unpiped [OF unf this, of m r] tn nt None p
      show ?thesis by (simp add: same_queue_def started_def)
    next
      case (Some err)
      from next_finish_error [OF unf, of m err r] tn nt Some p
      show ?thesis by (simp add: same_queue_def started_def)
    qed
  qed
qed


lemma same_queue_refl: "same_queue q w w"
  by (simp add: same_queue_def)

lemma same_queue_trans: "same_queue q w w1 \<Longrightarrow> same_queue q w1 w2 \<Longrightarrow> same_queue q w w2"
  by (simp add: same_queue_def)

lemma same_queue_expired: "same_queue q w w' \<Longrightarrow> is_expired w' q e = is_expired w q e"
  by (rule is_expired_eq) (simp_all add: same_queue_def)

lemma resume_loop_runs:
  assumes "waiting (queues w q) = es"
    and "\<forall>e\<in>set (take k es). \<not> is_expired w q e"
    and "onProcess (queues w q) = Some handler"
    and "(\<forall>e\<in>set (take k es). handler (task e) = Later) \<or>
         (paused (queues w q) \<and> destination (queues w q) = None \<and> 0 < n)"
    and "k = 0 \<or> int k \<le> concurrency (queues w q) - count (queues w q)"
  shows "\<exists>w'. resume_loop n q k w = (if k \<le> length es then Done w' else Thrown w') \<and>
           waiting (queues w' q) = drop k es \<and>
           same_queue q w w' \<and>
           started w' = started w @ map (\<lambda>e. (q, task e)) (take k es)"
  using assms
proof (induction k arbitrary: w es)
  case 0
  then show ?case by (simp add: same_queue_refl)
next
  case (Suc k)
  show ?case
  proof (cases es)
    case Nil
    with Suc.prems(1) have "takeNext n q w = Thrown w" by (simp add: takeNext.simps)
    with Nil Suc.prems(1) show ?thesis by (simp add: same_queue_refl)
  next
    case (Cons e rest)
    note es = Cons
    from Suc.prems(5) have free: "count (queues w q) < concurrency (queues w q)" by simp
    have mode: "handler (task e) = Later \<or>
        (paused (queues w q) \<and> destination (queues w q) = None \<and> 0 < n)"
      using Suc.prems(4) es by auto
    have ne: "\<not> is_expired w q e" using Suc.prems(2) es by simp
    from takeNext_pull [of w q e rest handler n] Suc.prems(1,3) es ne free mode
    obtain w1 where t: "takeNext n q w = Done w1" and w1: "waiting (queues w1 q) = rest"
      and sq: "same_queue q w w1" and c: "count (queues w1 q) \<le> count (queues w q) + 1"
      and st: "started w1 = started w @ [(q, task e)]"
      by blast
    have a3: "\<forall>x\<in>set (take k rest). \<not> is_expired w1 q x"
      using Suc.prems(2) es same_queue_expired [OF sq] by simp
    have a4: "onProcess (queues w1 q) = Some handler"
      using Suc.prems(3) sq by (simp add: same_queue_def)
    have a5: "(\<forall>x\<in>set (take k rest). handler (task x) = Later) \<or>
           (paused (queues w1 q) \<and> destination (queues w1 q) = None \<and> 0 < n)"
      using Suc.prems(4) es sq by (auto simp: same_queue_def)
    have a6: "k = 0 \<or> int k \<le> concurrency (queues w1 q) - count (queues w1 q)"
      using Suc.prems(5) c sq by (simp add: same_queue_def)
    from Suc.IH [OF w1 a3 a4 a5 a6]
    obtain w' where l: "resume_loop n q k w1 = (if k \<le> length rest then Done w' else Thrown w')"
      and w': "waiting (queues w' q) = drop k rest"
      and sq': "same_queue q w1 w'"
      and st': "started w' = started w1 @ map (\<lambda>e. (q, task e)) (take k rest)"
      by blast
    from t l es have "resume_loop n q (Suc k) w = (if Suc k \<le> length es then Done w' else Thrown w')"
      by simp
    moreover from w' es have "waiting (queues w' q) = drop (Suc k) es" by simp
    moreover from sq sq' have "same_queue q w w'" by (rule same_queue_trans)
    moreover from st st' es
    have "started w' = started w @ map (\<lambda>e. (q, task e)) (take (Suc k) es)" by simp
    ultimately show ?thesis by blast
  qed
qed

lemma take_drop_min:
  "take (min (length es) k) es = take k es" "drop (min (length es) k) es = drop k es"
  by (simp_all add: min_def)

lemma world_of_Done [simp]: "world_of (Done w) = w"
  by (simp add: world_of_def)

lemma returned_Done_iff [simp]: "returned (Done w)"
  by (simp add: returned_def)


text \<open>
  The loop of \<open>resume\<close> does not stop at an empty list: with one waiting task and three free
  channels the first call of \<open>takeNext\<close> starts the task, the second one throws, and
  \<^verbatim>\<open>paused\<close> stays true.
\<close>

lemma resume_throws_when_short:
  "length (waiting (queues roomy_world 0)) = 1 \<and>
   concurrency (queues roomy_world 0) - count (queues roomy_world 0) = 3 \<and>
   threw (resume 1 0 roomy_world) \<and>
   trace (world_of (resume 1 0 roomy_world)) = [Process 0 1] \<and>
   waiting (queues (world_of (resume 1 0 roomy_world)) 0) = [] \<and>
   paused (queues (world_of (resume 1 0 roomy_world)) 0)"
  by code_simp

text \<open>
  In general: when the waiting list is not empty and shorter than the number of free
  channels (and no entry has passed the wait timeout), \<open>resume\<close> starts every waiting task
  and then throws, and \<^verbatim>\<open>paused\<close> keeps its value.
\<close>

lemma resume_short:
  fixes w :: world and q :: qid
  defines "es \<equiv> waiting (queues w q)"
  defines "k \<equiv> nat (concurrency (queues w q) - count (queues w q))"
  assumes "es \<noteq> []" and "length es < k"
    and "\<forall>e\<in>set es. \<not> is_expired w q e"
    and "onProcess (queues w q) = Some handler"
    and "(\<forall>e\<in>set es. handler (task e) = Later) \<or>
         (paused (queues w q) \<and> destination (queues w q) = None \<and> 0 < n)"
  shows "threw (resume n q w) \<and>
         paused (queues (world_of (resume n q w)) q) = paused (queues w q) \<and>
         waiting (queues (world_of (resume n q w)) q) = []"
proof -
  have k0: "k = 0 \<or> int k \<le> concurrency (queues w q) - count (queues w q)"
    by (simp add: k_def)
  have wes: "waiting (queues w q) = es" by (simp add: es_def)
  have t: "take k es = es" using assms(4) by simp
  have a3: "\<forall>e\<in>set (take k es). \<not> is_expired w q e" using assms(5) t by simp
  have a5: "(\<forall>e\<in>set (take k es). handler (task e) = Later) \<or>
         (paused (queues w q) \<and> destination (queues w q) = None \<and> 0 < n)"
    using assms(7) t by simp
  from resume_loop_runs [OF wes a3 assms(6) a5 k0] assms(4)
  obtain w1 where l: "resume_loop n q k w = Thrown w1"
    and w1: "waiting (queues w1 q) = drop k es"
    and sq: "same_queue q w w1"
    by auto
  from assms(3) l have "resume n q w = Thrown w1"
    by (simp add: resume_def es_def k_def)
  with w1 sq assms(4) show ?thesis
    by (simp add: threw_def world_of_def same_queue_def)
qed

section \<open>The claims\<close>

text \<open>
  C1. Between any two operations (add, completion callbacks, timer firings, pause, resume,
  pipe) the number of active tasks of every queue is at least 0 and at most the queue's
  concurrency.
\<close>

theorem C1_active_within_bounds:
  "reachable w \<Longrightarrow>
     0 \<le> count (queues w q) \<and> count (queues w q) \<le> concurrency (queues w q)"
  using reachable_count_inv [of w] unfolding count_inv_def
  by (metis of_nat_0_le_iff)


theorem C1_witness:
  "reachable (world_of (run_all 1 [Add 0 1 0, Add 0 2 0, Complete 0 None 1] demo_world)) \<and>
   0 \<le> count (queues (world_of (run_all 1 [Add 0 1 0, Add 0 2 0, Complete 0 None 1] demo_world)) 0) \<and>
   count (queues (world_of (run_all 1 [Add 0 1 0, Add 0 2 0, Complete 0 None 1] demo_world)) 0)
     \<le> concurrency (queues (world_of (run_all 1 [Add 0 1 0, Add 0 2 0, Complete 0 None 1] demo_world)) 0)"
proof -
  have "returned (run_all 1 [Add 0 1 0, Add 0 2 0, Complete 0 None 1] demo_world)"
    by code_simp
  then have r: "reachable (world_of (run_all 1 [Add 0 1 0, Add 0 2 0, Complete 0 None 1] demo_world))"
    by (rule reachable_run_all [OF reachable_demo])
  show ?thesis
    using r C1_active_within_bounds [OF r, of 0] by simp
qed









text \<open>
  C3. Claimed: for every state of a queue \<open>resume\<close> first clears \<^verbatim>\<open>paused\<close> and then
  pulls, so that exactly \<^verbatim>\<open>min(waiting.length, concurrency - count)\<close> waiting tasks
  start at once and the other entries stay in the list. Three queues with one free channel:
  \<^item> \<open>stale_world\<close> (paused, two waiting tasks): the first task has passed the wait
    timeout. \<open>resume\<close> reports its timeout and starts no task.
  \<^item> \<open>sync_world\<close> (paused, two waiting tasks): the handler completes at once. Task 1
    completes inside the loop of \<open>resume\<close> and does not pull task 2, because \<^verbatim>\<open>paused\<close>
    is still true then; task 2 stays in the list although the flag is cleared and the
    channel is free afterwards.
  \<^item> \<open>eager_world\<close> (not paused, tasks 2 and 3 waiting): the handler completes at once.
    The completion of task 2 pulls task 3 into the same channel, so two tasks start and no
    entry stays in the list.
\<close>

theorem C3_counterexample:
  "length (waiting (queues stale_world 0)) = 2 \<and>
   concurrency (queues stale_world 0) - count (queues stale_world 0) = 1 \<and>
   paused (queues stale_world 0) \<and>
   returned (resume 1 0 stale_world) \<and>
   started (world_of (resume 1 0 stale_world)) = started stale_world \<and>
   trace (world_of (resume 1 0 stale_world)) =
     [Failure 0 WaitingTimedOut 1, Finished 0 (Some WaitingTimedOut) 1, Drain 0] \<and>
   map task (waiting (queues (world_of (resume 1 0 stale_world)) 0)) = [2] \<and>
   length (waiting (queues sync_world 0)) = 2 \<and>
   concurrency (queues sync_world 0) - count (queues sync_world 0) = 1 \<and>
   paused (queues sync_world 0) \<and>
   returned (resume 1 0 sync_world) \<and>
   trace (world_of (resume 1 0 sync_world)) =
     [Process 0 1, Success 0 1, Finished 0 None 1, Drain 0] \<and>
   map task (waiting (queues (world_of (resume 1 0 sync_world)) 0)) = [2] \<and>
   count (queues (world_of (resume 1 0 sync_world)) 0) = 0 \<and>
   paused (queues (world_of (resume 1 0 sync_world)) 0) = False \<and>
   map task (waiting (queues eager_world 0)) = [2, 3] \<and>
   concurrency (queues eager_world 0) - count (queues eager_world 0) = 1 \<and>
   paused (queues eager_world 0) = False \<and>
   started eager_world = [(0, 1)] \<and>
   returned (resume 2 0 eager_world) \<and>
   started (world_of (resume 2 0 eager_world)) = [(0, 1), (0, 2), (0, 3)] \<and>
   waiting (queues (world_of (resume 2 0 eager_world)) 0) = []"
  by code_simp

text \<open>
  C3, amended. Take any state of a queue in which none of the first
  \<^verbatim>\<open>concurrency - count\<close> waiting entries has passed the wait timeout and the handler
  completes later (or the queue is paused, has no destination, and the handler may complete
  at once). \<open>resume\<close> runs its pulls with \<^verbatim>\<open>paused\<close> as it was, and in the world \<open>w1\<close>
  that the pulls leave exactly \<^verbatim>\<open>min(waiting.length, concurrency - count)\<close> tasks have
  started, in the order of the list, and the other entries are still in the list. This holds
  for every length of the list. When the list is empty or holds at least
  \<^verbatim>\<open>concurrency - count\<close> entries, \<open>resume\<close> returns and clears \<^verbatim>\<open>paused\<close> after the
  pulls; in every case it ends, leaving either \<open>w1\<close> with \<^verbatim>\<open>paused\<close> cleared or \<open>w1\<close>.
\<close>

theorem C3_resume:
  fixes w :: world and q :: qid
  defines "es \<equiv> waiting (queues w q)"
  defines "k \<equiv> nat (concurrency (queues w q) - count (queues w q))"
  assumes "\<forall>e\<in>set (take k es). \<not> is_expired w q e"
    and "onProcess (queues w q) = Some handler"
    and "(\<forall>e\<in>set (take k es). handler (task e) = Later) \<or>
         (paused (queues w q) \<and> destination (queues w q) = None \<and> 0 < n)"
  shows "\<exists>w1. (es \<noteq> [] \<longrightarrow> final (resume_loop n q k w) = Some w1) \<and>
           paused (queues w1 q) = paused (queues w q) \<and>
           waiting (queues w1 q) = drop (min (length es) k) es \<and>
           started w1 = started w @ map (\<lambda>e. (q, task e)) (take (min (length es) k) es) \<and>
           (resume n q w = Done (upd_queue q (\<lambda>s. s\<lparr>paused := False\<rparr>) w1) \<or>
            resume n q w = Thrown w1) \<and>
           (es = [] \<or> k \<le> length es \<longrightarrow>
              resume n q w = Done (upd_queue q (\<lambda>s. s\<lparr>paused := False\<rparr>) w1))"
proof (cases "es = []")
  case True
  then have "resume n q w = Done (upd_queue q (\<lambda>s. s\<lparr>paused := False\<rparr>) w)"
    by (simp add: resume_def es_def)
  with True show ?thesis by (auto simp: es_def)
next
  case False
  have k0: "k = 0 \<or> int k \<le> concurrency (queues w q) - count (queues w q)"
    by (simp add: k_def)
  have wes: "waiting (queues w q) = es" by (simp add: es_def)
  from resume_loop_runs [OF wes assms(3,4,5) k0]
  obtain w1 where l: "resume_loop n q k w = (if k \<le> length es then Done w1 else Thrown w1)"
    and w1: "waiting (queues w1 q) = drop k es"
    and sq: "same_queue q w w1"
    and st: "started w1 = started w @ map (\<lambda>e. (q, task e)) (take k es)"
    by blast
  from False l have r: "resume n q w =
      (if k \<le> length es then Done (upd_queue q (\<lambda>s. s\<lparr>paused := False\<rparr>) w1) else Thrown w1)"
    by (simp add: resume_def es_def k_def)
  from l have f: "final (resume_loop n q k w) = Some w1" by simp
  from sq have p: "paused (queues w1 q) = paused (queues w q)" by (simp add: same_queue_def)
  show ?thesis
    using False f p w1 st r by (intro exI [of _ w1]) (simp add: take_drop_min)
qed


theorem C3_witness:
  "map task (waiting (queues backlog_world 0)) = [1, 2, 3] \<and>
   concurrency (queues backlog_world 0) - count (queues backlog_world 0) = 2 \<and>
   paused (queues backlog_world 0) \<and>
   started backlog_world = [] \<and>
   returned (resume 1 0 backlog_world) \<and>
   paused (queues (world_of (resume 1 0 backlog_world)) 0) = False \<and>
   map task (waiting (queues (world_of (resume 1 0 backlog_world)) 0)) = [3] \<and>
   started (world_of (resume 1 0 backlog_world)) = [(0, 1), (0, 2)] \<and>
   map task (waiting (queues sync_world 0)) = [1, 2] \<and>
   concurrency (queues sync_world 0) - count (queues sync_world 0) = 1 \<and>
   paused (queues sync_world 0) \<and>
   destination (queues sync_world 0) = None \<and>
   returned (resume 1 0 sync_world) \<and>
   paused (queues (world_of (resume 1 0 sync_world)) 0) = False \<and>
   map task (waiting (queues (world_of (resume 1 0 sync_world)) 0)) = [2] \<and>
   started (world_of (resume 1 0 sync_world)) = [(0, 1)] \<and>
   map task (waiting (queues roomy_world 0)) = [1] \<and>
   concurrency (queues roomy_world 0) - count (queues roomy_world 0) = 3 \<and>
   started roomy_world = [] \<and>
   map task (waiting (queues (world_of (resume 1 0 roomy_world)) 0)) = [] \<and>
   started (world_of (resume 1 0 roomy_world)) = [(0, 1)]"
proof -
  have b: "waiting (queues backlog_world 0) =
      [\<lparr>task = 1, start = 0, priority = 0\<rparr>, \<lparr>task = 2, start = 0, priority = 0\<rparr>,
       \<lparr>task = 3, start = 0, priority = 0\<rparr>]"
    "concurrency (queues backlog_world 0) - count (queues backlog_world 0) = 2"
    "paused (queues backlog_world 0)" "started backlog_world = []"
    "waitTimeout (queues backlog_world 0) = None"
    by code_simp+
  obtain h where h: "onProcess (queues backlog_world 0) = Some h" "\<And>t. h t = Later"
    by (simp add: backlog_world_def demo_factory_def init_world_def build_def
        world_of_def pause_def upd_queue_def add.simps Let_def sort_waiting_def
        QueueFactory_init_def QueueFactory_channels_def QueueFactory_wait_def
        QueueFactory_process_def QueueFactory_success_def QueueFactory_failure_def
        QueueFactory_done_def QueueFactory_drain_def)
  have b2: "\<forall>e\<in>set (take (nat (concurrency (queues backlog_world 0) - count (queues backlog_world 0)))
        (waiting (queues backlog_world 0))). \<not> is_expired backlog_world 0 e"
    using b(5) by (simp add: is_expired_def)
  have b4: "(\<forall>e\<in>set (take (nat (concurrency (queues backlog_world 0) - count (queues backlog_world 0)))
        (waiting (queues backlog_world 0))). h (task e) = Later) \<or>
      (paused (queues backlog_world 0) \<and> destination (queues backlog_world 0) = None \<and> 0 < (1::nat))"
    using h(2) by simp
  from C3_resume [OF b2 h(1) b4] b(1,2)
  obtain w1 where w1: "waiting (queues w1 0) = drop (min (length (waiting (queues backlog_world 0)))
          (nat (concurrency (queues backlog_world 0) - count (queues backlog_world 0))))
        (waiting (queues backlog_world 0))"
    "started w1 = started backlog_world @ map (\<lambda>e. (0, task e))
        (take (min (length (waiting (queues backlog_world 0)))
          (nat (concurrency (queues backlog_world 0) - count (queues backlog_world 0))))
        (waiting (queues backlog_world 0)))"
    "resume 1 0 backlog_world = Done (upd_queue 0 (\<lambda>s. s\<lparr>paused := False\<rparr>) w1)"
    by auto
  have r1: "returned (resume 1 0 backlog_world)"
    "paused (queues (world_of (resume 1 0 backlog_world)) 0) = False"
    "map task (waiting (queues (world_of (resume 1 0 backlog_world)) 0)) = [3]"
    "started (world_of (resume 1 0 backlog_world)) = [(0, 1), (0, 2)]"
    using w1 b by (simp_all add: started_def)
  have s: "waiting (queues sync_world 0) =
      [\<lparr>task = 1, start = 0, priority = 0\<rparr>, \<lparr>task = 2, start = 0, priority = 0\<rparr>]"
    "concurrency (queues sync_world 0) - count (queues sync_world 0) = 1"
    "paused (queues sync_world 0)" "destination (queues sync_world 0) = None"
    "started sync_world = []"
    by code_simp+
  have s5: "waitTimeout (queues sync_world 0) = Some 50" "clock sync_world = 0"
    by code_simp+
  obtain g where g: "onProcess (queues sync_world 0) = Some g"
    by (simp add: sync_world_def demo_factory_def init_world_def build_def
        world_of_def pause_def upd_queue_def add.simps Let_def sort_waiting_def
        QueueFactory_init_def QueueFactory_channels_def QueueFactory_wait_def
        QueueFactory_process_def QueueFactory_success_def QueueFactory_failure_def
        QueueFactory_done_def QueueFactory_drain_def)
  have s2: "\<forall>e\<in>set (take (nat (concurrency (queues sync_world 0) - count (queues sync_world 0)))
        (waiting (queues sync_world 0))). \<not> is_expired sync_world 0 e"
    using s s5 by (simp add: is_expired_def)
  have s4: "(\<forall>e\<in>set (take (nat (concurrency (queues sync_world 0) - count (queues sync_world 0)))
        (waiting (queues sync_world 0))). g (task e) = Later) \<or>
      (paused (queues sync_world 0) \<and> destination (queues sync_world 0) = None \<and> 0 < (1::nat))"
    using s by simp
  from C3_resume [OF s2 g s4] s(1,2)
  obtain w2 where w2: "waiting (queues w2 0) = drop (min (length (waiting (queues sync_world 0)))
          (nat (concurrency (queues sync_world 0) - count (queues sync_world 0))))
        (waiting (queues sync_world 0))"
    "started w2 = started sync_world @ map (\<lambda>e. (0, task e))
        (take (min (length (waiting (queues sync_world 0)))
          (nat (concurrency (queues sync_world 0) - count (queues sync_world 0))))
        (waiting (queues sync_world 0)))"
    "resume 1 0 sync_world = Done (upd_queue 0 (\<lambda>s. s\<lparr>paused := False\<rparr>) w2)"
    by auto
  have r2: "returned (resume 1 0 sync_world)"
    "paused (queues (world_of (resume 1 0 sync_world)) 0) = False"
    "map task (waiting (queues (world_of (resume 1 0 sync_world)) 0)) = [2]"
    "started (world_of (resume 1 0 sync_world)) = [(0, 1)]"
    using w2 s by (simp_all add: started_def)
  have c: "waiting (queues roomy_world 0) = [\<lparr>task = 1, start = 0, priority = 0\<rparr>]"
    "concurrency (queues roomy_world 0) - count (queues roomy_world 0) = 3"
    "started roomy_world = []"
    "waitTimeout (queues roomy_world 0) = Some 50" "clock roomy_world = 0"
    by code_simp+
  obtain f where f: "onProcess (queues roomy_world 0) = Some f" "\<And>t. f t = Later"
    by (simp add: roomy_world_def demo_factory_def init_world_def build_def
        world_of_def pause_def upd_queue_def add.simps Let_def sort_waiting_def
        QueueFactory_init_def QueueFactory_channels_def QueueFactory_wait_def
        QueueFactory_process_def QueueFactory_success_def QueueFactory_failure_def
        QueueFactory_done_def QueueFactory_drain_def)
  have c2: "\<forall>e\<in>set (take (nat (concurrency (queues roomy_world 0) - count (queues roomy_world 0)))
        (waiting (queues roomy_world 0))). \<not> is_expired roomy_world 0 e"
    using c by (simp add: is_expired_def)
  have c4: "(\<forall>e\<in>set (take (nat (concurrency (queues roomy_world 0) - count (queues roomy_world 0)))
        (waiting (queues roomy_world 0))). f (task e) = Later) \<or>
      (paused (queues roomy_world 0) \<and> destination (queues roomy_world 0) = None \<and> 0 < (1::nat))"
    using f(2) by simp
  from C3_resume [OF c2 f(1) c4]
  obtain w3 where w3: "waiting (queues w3 0) = drop (min (length (waiting (queues roomy_world 0)))
          (nat (concurrency (queues roomy_world 0) - count (queues roomy_world 0))))
        (waiting (queues roomy_world 0))"
    "started w3 = started roomy_world @ map (\<lambda>e. (0, task e))
        (take (min (length (waiting (queues roomy_world 0)))
          (nat (concurrency (queues roomy_world 0) - count (queues roomy_world 0))))
        (waiting (queues roomy_world 0)))"
    "resume 1 0 roomy_world = Done (upd_queue 0 (\<lambda>s. s\<lparr>paused := False\<rparr>) w3) \<or>
     resume 1 0 roomy_world = Thrown w3"
    by blast
  have r3: "map task (waiting (queues (world_of (resume 1 0 roomy_world)) 0)) = []"
    "started (world_of (resume 1 0 roomy_world)) = [(0, 1)]"
    using w3 c by (auto simp add: started_def world_of_def)
  from b(2,3,4) r1 s(2,3,4) r2 c(2,3) r3 show ?thesis
    using b(1) s(1) c(1) by simp
qed


text \<open>
  C4. In priority mode the waiting list of every queue is in descending order of priority
  between any two operations; \<open>add\<close> puts a new entry behind every waiting entry of the
  same or a higher priority and before every entry of a lower one, so ties keep their
  order of arrival. Without priority mode \<open>add\<close> appends. \<open>takeNext\<close> starts the head
  of the list. Tasks of priority 1, 5 and 3 added to a busy queue are started in the order
  5, 3, 1.
\<close>

theorem C4_waiting_order:
  "(reachable w \<longrightarrow> priorityMode (queues w q) \<longrightarrow> by_priority (waiting (queues w q)))
   \<and> (reachable w \<longrightarrow> priorityMode (queues w q) \<longrightarrow>
        paused (queues w q) \<or> concurrency (queues w q) \<le> count (queues w q) \<longrightarrow>
        add n q t p w =
          Done (upd_queue q (\<lambda>s. s\<lparr>waiting :=
            takeWhile (\<lambda>x. p \<le> priority x) (waiting s)
              @ \<lparr>task = t, start = clock w, priority = p\<rparr>
              # dropWhile (\<lambda>x. p \<le> priority x) (waiting s)\<rparr>) w))
   \<and> (\<not> priorityMode (queues w q) \<longrightarrow>
        paused (queues w q) \<or> concurrency (queues w q) \<le> count (queues w q) \<longrightarrow>
        add n q t p w =
          Done (upd_queue q (\<lambda>s. s\<lparr>waiting :=
            waiting s @ [\<lparr>task = t, start = clock w, priority = p\<rparr>]\<rparr>) w))
   \<and> (\<forall>e rest. waiting (queues w q) = e # rest \<longrightarrow> \<not> is_expired w q e \<longrightarrow>
        count (queues w q) < concurrency (queues w q) \<longrightarrow>
        takeNext n q w = next_task n q (task e) (upd_queue q (\<lambda>s. s\<lparr>waiting := rest\<rparr>) w))"
proof (intro conjI allI impI)
  assume "reachable w" and "priorityMode (queues w q)"
  then show "by_priority (waiting (queues w q))"
    using reachable_sorted_inv [of w] by (simp add: sorted_inv_def)
next
  assume r: "reachable w" and pm: "priorityMode (queues w q)"
    and busy: "paused (queues w q) \<or> concurrency (queues w q) \<le> count (queues w q)"
  from r pm have "by_priority (waiting (queues w q))"
    using reachable_sorted_inv [of w] by (simp add: sorted_inv_def)
  from sort_waiting_snoc [OF this, of "\<lparr>task = t, start = clock w, priority = p\<rparr>"] pm
  show "add n q t p w =
          Done (upd_queue q (\<lambda>s. s\<lparr>waiting :=
            takeWhile (\<lambda>x. p \<le> priority x) (waiting s)
              @ \<lparr>task = t, start = clock w, priority = p\<rparr>
              # dropWhile (\<lambda>x. p \<le> priority x) (waiting s)\<rparr>) w)"
    by (simp add: add_waits [OF busy] upd_queue_def)
next
  assume "\<not> priorityMode (queues w q)"
    and busy: "paused (queues w q) \<or> concurrency (queues w q) \<le> count (queues w q)"
  then show "add n q t p w =
          Done (upd_queue q (\<lambda>s. s\<lparr>waiting :=
            waiting s @ [\<lparr>task = t, start = clock w, priority = p\<rparr>]\<rparr>) w)"
    by (simp add: add_waits [OF busy] upd_queue_def)
next
  fix e rest
  assume "waiting (queues w q) = e # rest" "\<not> is_expired w q e"
    "count (queues w q) < concurrency (queues w q)"
  then show "takeNext n q w = next_task n q (task e) (upd_queue q (\<lambda>s. s\<lparr>waiting := rest\<rparr>) w)"
    by (rule takeNext_starts_head)
qed

theorem C4_witness:
  "reachable priority_world \<and>
   priorityMode (queues priority_world 0) \<and>
   by_priority (waiting (queues priority_world 0)) \<and>
   count (queues priority_world 0) = 1 \<and>
   concurrency (queues priority_world 0) = 1 \<and>
   map priority (waiting (queues priority_world 0)) = [5, 3, 1] \<and>
   map task (waiting (queues (world_of (add 1 0 6 3 priority_world)) 0)) = [5, 3, 6, 1] \<and>
   trace (world_of (run_all 1 [Complete 0 None 0, Complete 1 None 5, Complete 2 None 3]
      priority_world)) = [Process 0 0, Process 0 5, Process 0 3, Process 0 1]"
proof -
  have r: "reachable priority_world" by (rule reachable_priority)
  have pm: "priorityMode (queues priority_world 0)" by code_simp
  have busy: "paused (queues priority_world 0) \<or>
      concurrency (queues priority_world 0) \<le> count (queues priority_world 0)"
    by code_simp
  have e: "count (queues priority_world 0) = 1" "concurrency (queues priority_world 0) = 1"
    "map priority (waiting (queues priority_world 0)) = [5, 3, 1]"
    "trace (world_of (run_all 1 [Complete 0 None 0, Complete 1 None 5, Complete 2 None 3]
      priority_world)) = [Process 0 0, Process 0 5, Process 0 3, Process 0 1]"
    by code_simp+
  have ws: "waiting (queues priority_world 0) =
      [\<lparr>task = 5, start = 0, priority = 5\<rparr>, \<lparr>task = 3, start = 0, priority = 3\<rparr>,
       \<lparr>task = 1, start = 0, priority = 1\<rparr>]"
    by code_simp
  note T = C4_waiting_order [of priority_world 0 1 6 3]
  from T r pm have s: "by_priority (waiting (queues priority_world 0))" by blast
  from T r pm busy have "add 1 0 6 3 priority_world =
          Done (upd_queue 0 (\<lambda>s. s\<lparr>waiting :=
            takeWhile (\<lambda>x. 3 \<le> priority x) (waiting s)
              @ \<lparr>task = 6, start = clock priority_world, priority = 3\<rparr>
              # dropWhile (\<lambda>x. 3 \<le> priority x) (waiting s)\<rparr>) priority_world)"
    by blast
  then have a: "map task (waiting (queues (world_of (add 1 0 6 3 priority_world)) 0)) = [5, 3, 6, 1]"
    using ws by (simp add: world_of_def)
  from r pm s e a show ?thesis by blast
qed


text \<open>
  C5. When \<open>takeNext\<close> pulls an entry that has waited strictly longer than a finite
  \<^verbatim>\<open>waitTimeout\<close>, it reports the task through \<open>finish\<close> with the waiting-timeout error
  and changes nothing else but the waiting list: \<^verbatim>\<open>count\<close> and the activation records
  stay as they are and the handler is not called. If entries remain it only schedules a
  zero-delay timeout; when that fires, \<open>takeNext\<close> runs only if the queue is then unpaused
  with a non-empty waiting list.
\<close>

theorem C5_wait_timeout:
  assumes "waiting (queues w q) = e # rest"
    and "waitTimeout (queues w q) = Some limit"
    and "limit < clock w - start e"
  shows "takeNext n q w =
      Done (w\<lparr>queues := (queues w)(q := (queues w q)\<lparr>waiting := rest\<rparr>),
              trace := trace w
                @ (if onFailure (queues w q) then [Failure q WaitingTimedOut (task e)] else [])
                @ (if onDone (queues w q) then [Finished q (Some WaitingTimedOut) (task e)] else [])
                @ (if count (queues w q) = 0 \<and> onDrain (queues w q) then [Drain q] else []),
              deferred := deferred w @ (if rest \<noteq> [] then [q] else [])\<rparr>)
    \<and> (\<forall>v ds. deferred v = q # ds \<longrightarrow>
          run n Deferred v =
            (if \<not> paused (queues v q) \<and> waiting (queues v q) \<noteq> []
             then takeNext n q (v\<lparr>deferred := ds\<rparr>) else Done (v\<lparr>deferred := ds\<rparr>)))"
proof
  have "is_expired (upd_queue q (\<lambda>s. s\<lparr>waiting := rest\<rparr>) w) q e"
    using assms by (simp add: is_expired_def)
  then show "takeNext n q w =
      Done (w\<lparr>queues := (queues w)(q := (queues w q)\<lparr>waiting := rest\<rparr>),
              trace := trace w
                @ (if onFailure (queues w q) then [Failure q WaitingTimedOut (task e)] else [])
                @ (if onDone (queues w q) then [Finished q (Some WaitingTimedOut) (task e)] else [])
                @ (if count (queues w q) = 0 \<and> onDrain (queues w q) then [Drain q] else []),
              deferred := deferred w @ (if rest \<noteq> [] then [q] else [])\<rparr>)"
    using assms(1) by (simp add: takeNext.simps finish_error Let_def upd_queue_def)
next
  show "\<forall>v ds. deferred v = q # ds \<longrightarrow>
          run n Deferred v =
            (if \<not> paused (queues v q) \<and> waiting (queues v q) \<noteq> []
             then takeNext n q (v\<lparr>deferred := ds\<rparr>) else Done (v\<lparr>deferred := ds\<rparr>))"
    by (simp add: Let_def)
qed


theorem C5_witness:
  "waiting (queues wait_world 0) =
     [\<lparr>task = 1, start = 0, priority = 0\<rparr>, \<lparr>task = 2, start = 0, priority = 0\<rparr>] \<and>
   waitTimeout (queues wait_world 0) = Some 50 \<and>
   50 < clock wait_world - start \<lparr>task = 1, start = 0, priority = 0\<rparr> \<and>
   takeNext 1 0 wait_world =
     Done (wait_world\<lparr>queues := (queues wait_world)
               (0 := (queues wait_world 0)\<lparr>waiting := [\<lparr>task = 2, start = 0, priority = 0\<rparr>]\<rparr>),
             trace := trace wait_world @
               [Failure 0 WaitingTimedOut 1, Finished 0 (Some WaitingTimedOut) 1, Drain 0],
             deferred := deferred wait_world @ [0]\<rparr>) \<and>
   count (queues (world_of (takeNext 1 0 wait_world)) 0) = 0 \<and>
   acts (world_of (takeNext 1 0 wait_world)) = [] \<and>
   trace (world_of (takeNext 1 0 wait_world)) =
     [Failure 0 WaitingTimedOut 1, Finished 0 (Some WaitingTimedOut) 1, Drain 0] \<and>
   deferred (world_of (takeNext 1 0 wait_world)) = [0] \<and>
   run 1 Deferred (world_of (takeNext 1 0 wait_world)) =
     Done ((world_of (takeNext 1 0 wait_world))\<lparr>deferred := []\<rparr>)"
proof -
  have h1: "waiting (queues wait_world 0) =
     [\<lparr>task = 1, start = 0, priority = 0\<rparr>, \<lparr>task = 2, start = 0, priority = 0\<rparr>]"
    by code_simp
  have h2: "waitTimeout (queues wait_world 0) = Some 50"
    by code_simp
  have h3: "50 < clock wait_world - start \<lparr>task = 1, start = 0, priority = 0\<rparr>"
    by code_simp
  have c: "onFailure (queues wait_world 0)" "onDone (queues wait_world 0)"
    "onDrain (queues wait_world 0)" "count (queues wait_world 0) = 0"
    by code_simp+
  have d: "deferred (world_of (takeNext 1 0 wait_world)) = [0]"
    "paused (queues (world_of (takeNext 1 0 wait_world)) 0)"
    by code_simp+
  have e: "count (queues (world_of (takeNext 1 0 wait_world)) 0) = 0"
    "acts (world_of (takeNext 1 0 wait_world)) = []"
    "trace (world_of (takeNext 1 0 wait_world)) =
     [Failure 0 WaitingTimedOut 1, Finished 0 (Some WaitingTimedOut) 1, Drain 0]"
    by code_simp+
  from C5_wait_timeout [OF h1 h2 h3, of 1]
  show ?thesis
    using h1 h2 h3 c d e by simp
qed


text \<open>
  C6. When the process timer of an activation fires before the handler has called its
  completion callback, \<^verbatim>\<open>onFailure\<close> and \<^verbatim>\<open>onDone\<close> (where set) are each called once
  with the process-timeout error and the original task, the channel is released, and the
  next waiting task is pulled into the free channel. Firing the timer again, or a late call
  of the callback, changes nothing. The timer is armed by \<open>next_task\<close> with the task it
  starts whenever \<^verbatim>\<open>processTimeout\<close> is finite.
\<close>

theorem C6_process_timeout:
  fixes w :: world and a :: nat
  defines "q \<equiv> owner (acts w ! a)"
  defines "t \<equiv> atask (acts w ! a)"
  defines "w1 \<equiv> w\<lparr>acts := (acts w)[a := (acts w ! a)\<lparr>finished := True, timer := None\<rparr>],
         queues := (queues w)(q := (queues w q)\<lparr>count := count (queues w q) - 1\<rparr>),
         trace := trace w
           @ (if onFailure (queues w q) then [Failure q ProcessTimedOut t] else [])
           @ (if onDone (queues w q) then [Finished q (Some ProcessTimedOut) t] else [])
           @ (if count (queues w q) = 1 \<and> onDrain (queues w q) then [Drain q] else [])\<rparr>"
  assumes "a < length (acts w)"
    and "\<not> finished (acts w ! a)"
    and "timer (acts w ! a) = Some deadline"
    and "deadline \<le> clock w"
  shows "run n (Timeout a) w =
           (if \<not> paused (queues w q) \<and> waiting (queues w q) \<noteq> []
            then takeNext n q w1 else Done w1)
    \<and> (\<forall>e rest. \<not> paused (queues w q) \<longrightarrow> waiting (queues w q) = e # rest \<longrightarrow>
          \<not> is_expired w q e \<longrightarrow> count (queues w q) \<le> concurrency (queues w q) \<longrightarrow>
          run n (Timeout a) w =
            next_task n q (task e) (upd_queue q (\<lambda>s. s\<lparr>waiting := rest\<rparr>) w1))
    \<and> (\<forall>w' m e r. final (run n (Timeout a) w) = Some w' \<longrightarrow>
          run m (Timeout a) w' = Done w' \<and> run m (Complete a e r) w' = Done w')
    \<and> (\<forall>(v::world) p x handler d. onProcess (queues v p) = Some handler \<longrightarrow>
          handler x = Later \<longrightarrow> processTimeout (queues v p) = Some d \<longrightarrow>
          next_task n p x v =
            Done (v\<lparr>queues := (queues v)(p := (queues v p)\<lparr>count := count (queues v p) + 1\<rparr>),
                   acts := acts v @
                     [\<lparr>owner = p, atask = x, finished = False, timer = Some (clock v + d)\<rparr>],
                   trace := trace v @ [Process p x]\<rparr>))"
proof (intro conjI allI impI)
  have r: "run n (Timeout a) w = next_finish n a (Some ProcessTimedOut) t w"
    using assms by simp
  show eq: "run n (Timeout a) w =
           (if \<not> paused (queues w q) \<and> waiting (queues w q) \<noteq> []
            then takeNext n q w1 else Done w1)"
    unfolding r w1_def q_def t_def
    by (simp add: next_finish_error [OF assms(5)])
  {
    fix e rest
    assume "\<not> paused (queues w q)" and wq: "waiting (queues w q) = e # rest"
      and ne: "\<not> is_expired w q e" and "count (queues w q) \<le> concurrency (queues w q)"
    then have "run n (Timeout a) w = takeNext n q w1" using eq by simp
    moreover have "waiting (queues w1 q) = e # rest" using wq by (simp add: w1_def)
    moreover have "is_expired (upd_queue q (\<lambda>s. s\<lparr>waiting := rest\<rparr>) w1) q e
        = is_expired w q e"
      by (rule is_expired_eq) (simp_all add: w1_def)
    with ne have "\<not> is_expired (upd_queue q (\<lambda>s. s\<lparr>waiting := rest\<rparr>) w1) q e"
      by simp
    moreover have "count (queues w1 q) < concurrency (queues w1 q)"
      using \<open>count (queues w q) \<le> concurrency (queues w q)\<close> by (simp add: w1_def)
    ultimately show "run n (Timeout a) w =
        next_task n q (task e) (upd_queue q (\<lambda>s. s\<lparr>waiting := rest\<rparr>) w1)"
      by (simp add: takeNext.simps [of n q w1])
  }
  {
    fix w' m e r
    assume "final (run n (Timeout a) w) = Some w'"
    with r have "final (next_finish n a (Some ProcessTimedOut) t w) = Some w'" by simp
    with assms(4,5) have s: "settled w' a" by (rule next_finish_settles)
    from s show "run m (Timeout a) w' = Done w'" by (rule settled_ignored)
    from s show "run m (Complete a e r) w' = Done w'" by (rule settled_ignored)
  }
  {
    fix v :: world and p x handler d
    assume "onProcess (queues v p) = Some handler" "handler x = Later"
      "processTimeout (queues v p) = Some d"
    then show "next_task n p x v =
            Done (v\<lparr>queues := (queues v)(p := (queues v p)\<lparr>count := count (queues v p) + 1\<rparr>),
                   acts := acts v @
                     [\<lparr>owner = p, atask = x, finished = False, timer = Some (clock v + d)\<rparr>],
                   trace := trace v @ [Process p x]\<rparr>)"
      by (simp add: next_task.simps Let_def upd_queue_def emit_def)
  }
qed

theorem C6_witness:
  "0 < length (acts timeout_world) \<and>
   \<not> finished (acts timeout_world ! 0) \<and>
   timer (acts timeout_world ! 0) = Some 100 \<and>
   100 \<le> clock timeout_world \<and>
   owner (acts timeout_world ! 0) = 0 \<and>
   atask (acts timeout_world ! 0) = 1 \<and>
   map task (waiting (queues timeout_world 0)) = [2] \<and>
   trace timeout_world = [Process 0 1] \<and>
   trace (world_of (run 1 (Timeout 0) timeout_world)) =
     [Process 0 1, Failure 0 ProcessTimedOut 1, Finished 0 (Some ProcessTimedOut) 1, Drain 0,
      Process 0 2] \<and>
   count (queues (world_of (run 1 (Timeout 0) timeout_world)) 0) = 1 \<and>
   run 1 (Timeout 0) (world_of (run 1 (Timeout 0) timeout_world)) =
     Done (world_of (run 1 (Timeout 0) timeout_world)) \<and>
   run 1 (Complete 0 None 1) (world_of (run 1 (Timeout 0) timeout_world)) =
     Done (world_of (run 1 (Timeout 0) timeout_world))"
proof -
  have h: "0 < length (acts timeout_world)" "\<not> finished (acts timeout_world ! 0)"
    "timer (acts timeout_world ! 0) = Some 100" "100 \<le> clock timeout_world"
    by code_simp+
  have e: "owner (acts timeout_world ! 0) = 0" "atask (acts timeout_world ! 0) = 1"
    "map task (waiting (queues timeout_world 0)) = [2]"
    "trace timeout_world = [Process 0 1]"
    "trace (world_of (run 1 (Timeout 0) timeout_world)) =
     [Process 0 1, Failure 0 ProcessTimedOut 1, Finished 0 (Some ProcessTimedOut) 1, Drain 0,
      Process 0 2]"
    "count (queues (world_of (run 1 (Timeout 0) timeout_world)) 0) = 1"
    by code_simp+
  have "returned (run 1 (Timeout 0) timeout_world)" by code_simp
  then have f: "final (run 1 (Timeout 0) timeout_world)
      = Some (world_of (run 1 (Timeout 0) timeout_world))"
    by (rule final_returned)
  from C6_process_timeout [OF h, of 1] f
  have "run 1 (Timeout 0) (world_of (run 1 (Timeout 0) timeout_world)) =
          Done (world_of (run 1 (Timeout 0) timeout_world))"
    and "run 1 (Complete 0 None 1) (world_of (run 1 (Timeout 0) timeout_world)) =
          Done (world_of (run 1 (Timeout 0) timeout_world))"
    by blast+
  with h e show ?thesis by blast
qed






text \<open>
  C8. Claimed: \<^verbatim>\<open>onDrain\<close> is called once per transition of \<^verbatim>\<open>count\<close> from 1 to 0
  and at no other time. In the run below a paused queue holds one task past its waiting
  timeout; \<open>resume\<close> pulls it, \<open>finish\<close> reports the timeout and, finding \<^verbatim>\<open>count\<close> at 0,
  calls \<^verbatim>\<open>onDrain\<close>, although no task was ever admitted.
\<close>

theorem C8_counterexample:
  "returned (run_all 1 [Pause 0, Add 0 1 0, Tick 100, Resume 0] demo_world) \<and>
   trace (world_of (run_all 1 [Pause 0, Add 0 1 0, Tick 100, Resume 0] demo_world)) =
     [Failure 0 WaitingTimedOut 1, Finished 0 (Some WaitingTimedOut) 1, Drain 0] \<and>
   acts (world_of (run_all 1 [Pause 0, Add 0 1 0, Tick 100, Resume 0] demo_world)) = [] \<and>
   count (queues demo_world 0) = 0 \<and>
   count (queues (world_of (run_all 1 [Pause 0] demo_world)) 0) = 0 \<and>
   count (queues (world_of (run_all 1 [Pause 0, Add 0 1 0] demo_world)) 0) = 0 \<and>
   count (queues (world_of (run_all 1 [Pause 0, Add 0 1 0, Tick 100] demo_world)) 0) = 0 \<and>
   count (queues (world_of (run_all 1 [Pause 0, Add 0 1 0, Tick 100, Resume 0] demo_world)) 0) = 0"
  by code_simp


text \<open>
  C8, amended. \<open>finish\<close> calls \<^verbatim>\<open>onDrain\<close> (where set), after the other listeners
  and after forwarding to a destination, exactly when \<^verbatim>\<open>count\<close> is 0 at that point. So
  a completion callback that reports a failure, or a success on a queue without
  destination, calls it exactly when it took \<^verbatim>\<open>count\<close> from 1 to 0, and a reported
  waiting timeout calls it exactly when no task is active. Every operation is a sequence
  of atomic changes, and the only atomic change that calls \<^verbatim>\<open>onDrain\<close> of a queue
  starts from \<^verbatim>\<open>count = 0\<close>. With two channels and two failing tasks \<^verbatim>\<open>onDrain\<close>
  is called once, after the second failure.
\<close>

theorem C8_drain_when_idle:
  "finish n q (Some err) r w =
      Done (w\<lparr>trace := trace w
        @ (if onFailure (queues w q) then [Failure q err r] else [])
        @ (if onDone (queues w q) then [Finished q (Some err) r] else [])
        @ (if count (queues w q) = 0 \<and> onDrain (queues w q) then [Drain q] else [])\<rparr>)
   \<and> (destination (queues w q) = None \<longrightarrow>
       finish n q None r w =
         Done (w\<lparr>trace := trace w
           @ (if onSuccess (queues w q) then [Success q r] else [])
           @ (if onDone (queues w q) then [Finished q None r] else [])
           @ (if count (queues w q) = 0 \<and> onDrain (queues w q) then [Drain q] else [])\<rparr>))
   \<and> (\<forall>d. destination (queues w q) = Some d \<longrightarrow>
       finish n q None r w =
         (case add n d r 0 (if onSuccess (queues w q) then emit (Success q r) w else w) of
            Done w2 \<Rightarrow>
              Done (if count (queues w2 q) = 0 \<and> onDrain (queues w q)
                    then emit (Drain q)
                           (if onDone (queues w q) then emit (Finished q None r) w2 else w2)
                    else (if onDone (queues w q) then emit (Finished q None r) w2 else w2))
          | Thrown w2 \<Rightarrow> Thrown w2
          | OutOfFuel \<Rightarrow> OutOfFuel))
   \<and> (\<forall>a. \<not> finished (acts w ! a) \<longrightarrow> owner (acts w ! a) = q \<longrightarrow>
       next_finish n a (Some err) r w =
         (if \<not> paused (queues w q) \<and> waiting (queues w q) \<noteq> [] then takeNext n q else Done)
           (w\<lparr>acts := (acts w)[a := (acts w ! a)\<lparr>finished := True, timer := None\<rparr>],
              queues := (queues w)(q := (queues w q)\<lparr>count := count (queues w q) - 1\<rparr>),
              trace := trace w
                @ (if onFailure (queues w q) then [Failure q err r] else [])
                @ (if onDone (queues w q) then [Finished q (Some err) r] else [])
                @ (if count (queues w q) = 1 \<and> onDrain (queues w q) then [Drain q] else [])\<rparr>))
   \<and> (\<forall>a. \<not> finished (acts w ! a) \<longrightarrow> owner (acts w ! a) = q \<longrightarrow>
       destination (queues w q) = None \<longrightarrow>
       next_finish n a None r w =
         (if \<not> paused (queues w q) \<and> waiting (queues w q) \<noteq> [] then takeNext n q else Done)
           (w\<lparr>acts := (acts w)[a := (acts w ! a)\<lparr>finished := True, timer := None\<rparr>],
              queues := (queues w)(q := (queues w q)\<lparr>count := count (queues w q) - 1\<rparr>),
              trace := trace w
                @ (if onSuccess (queues w q) then [Success q r] else [])
                @ (if onDone (queues w q) then [Finished q None r] else [])
                @ (if count (queues w q) = 1 \<and> onDrain (queues w q) then [Drain q] else [])\<rparr>))
   \<and> (\<forall>x w'. final (run n x w) = Some w' \<longrightarrow> mstep\<^sup>*\<^sup>* w w')
   \<and> (\<forall>v v'. mstep v v' \<longrightarrow> trace v' = trace v @ [Drain q] \<longrightarrow> count (queues v q) = 0)"
proof (intro conjI allI impI)
  show "finish n q (Some err) r w =
      Done (w\<lparr>trace := trace w
        @ (if onFailure (queues w q) then [Failure q err r] else [])
        @ (if onDone (queues w q) then [Finished q (Some err) r] else [])
        @ (if count (queues w q) = 0 \<and> onDrain (queues w q) then [Drain q] else [])\<rparr>)"
    by (rule finish_error)
next
  assume "destination (queues w q) = None"
  then show "finish n q None r w =
         Done (w\<lparr>trace := trace w
           @ (if onSuccess (queues w q) then [Success q r] else [])
           @ (if onDone (queues w q) then [Finished q None r] else [])
           @ (if count (queues w q) = 0 \<and> onDrain (queues w q) then [Drain q] else [])\<rparr>)"
    by (rule finish_unpiped)
next
  fix d
  assume "destination (queues w q) = Some d"
  then show "finish n q None r w =
         (case add n d r 0 (if onSuccess (queues w q) then emit (Success q r) w else w) of
            Done w2 \<Rightarrow>
              Done (if count (queues w2 q) = 0 \<and> onDrain (queues w q)
                    then emit (Drain q)
                           (if onDone (queues w q) then emit (Finished q None r) w2 else w2)
                    else (if onDone (queues w q) then emit (Finished q None r) w2 else w2))
          | Thrown w2 \<Rightarrow> Thrown w2
          | OutOfFuel \<Rightarrow> OutOfFuel)"
    by (simp add: finish_success)
next
  fix a
  assume "\<not> finished (acts w ! a)" and "owner (acts w ! a) = q"
  then show "next_finish n a (Some err) r w =
         (if \<not> paused (queues w q) \<and> waiting (queues w q) \<noteq> [] then takeNext n q else Done)
           (w\<lparr>acts := (acts w)[a := (acts w ! a)\<lparr>finished := True, timer := None\<rparr>],
              queues := (queues w)(q := (queues w q)\<lparr>count := count (queues w q) - 1\<rparr>),
              trace := trace w
                @ (if onFailure (queues w q) then [Failure q err r] else [])
                @ (if onDone (queues w q) then [Finished q (Some err) r] else [])
                @ (if count (queues w q) = 1 \<and> onDrain (queues w q) then [Drain q] else [])\<rparr>)"
    using next_finish_error [of w a n err r] by simp
next
  fix a
  assume "\<not> finished (acts w ! a)" and "owner (acts w ! a) = q"
    and "destination (queues w q) = None"
  then show "next_finish n a None r w =
         (if \<not> paused (queues w q) \<and> waiting (queues w q) \<noteq> [] then takeNext n q else Done)
           (w\<lparr>acts := (acts w)[a := (acts w ! a)\<lparr>finished := True, timer := None\<rparr>],
              queues := (queues w)(q := (queues w q)\<lparr>count := count (queues w q) - 1\<rparr>),
              trace := trace w
                @ (if onSuccess (queues w q) then [Success q r] else [])
                @ (if onDone (queues w q) then [Finished q None r] else [])
                @ (if count (queues w q) = 1 \<and> onDrain (queues w q) then [Drain q] else [])\<rparr>)"
    using next_finish_unpiped [of w a n r] by simp
next
  fix x w'
  assume "final (run n x w) = Some w'"
  then show "mstep\<^sup>*\<^sup>* w w'" by (rule run_msteps)
next
  fix v v'
  assume "mstep v v'" and "trace v' = trace v @ [Drain q]"
  then show "count (queues v q) = 0"
    using mstep_trace [of v v'] by auto
qed


theorem C8_witness:
  "\<not> finished (acts pair_world ! 1) \<and>
   owner (acts pair_world ! 1) = 0 \<and>
   concurrency (queues pair_world 0) = 2 \<and>
   count (queues pair_world 0) = 1 \<and>
   trace pair_world =
     [Process 0 1, Process 0 2, Failure 0 (HandlerError 1) 1, Finished 0 (Some (HandlerError 1)) 1] \<and>
   next_finish 1 1 (Some (HandlerError 2)) 2 pair_world =
     Done (pair_world\<lparr>acts := (acts pair_world)[1 := (acts pair_world ! 1)\<lparr>finished := True, timer := None\<rparr>],
        queues := (queues pair_world)(0 := (queues pair_world 0)\<lparr>count := 0\<rparr>),
        trace := trace pair_world @
          [Failure 0 (HandlerError 2) 2, Finished 0 (Some (HandlerError 2)) 2, Drain 0]\<rparr>) \<and>
   trace (world_of (run 1 (Complete 1 (Some (HandlerError 2)) 2) pair_world)) =
     [Process 0 1, Process 0 2, Failure 0 (HandlerError 1) 1, Finished 0 (Some (HandlerError 1)) 1,
      Failure 0 (HandlerError 2) 2, Finished 0 (Some (HandlerError 2)) 2, Drain 0] \<and>
   mstep\<^sup>*\<^sup>* pair_world (world_of (run 1 (Complete 1 (Some (HandlerError 2)) 2) pair_world)) \<and>
   mstep demo_world (emit (Drain 0) demo_world) \<and>
   count (queues demo_world 0) = 0"
proof -
  have h: "\<not> finished (acts pair_world ! 1)" "owner (acts pair_world ! 1) = 0"
    by code_simp+
  have e: "concurrency (queues pair_world 0) = 2" "count (queues pair_world 0) = 1"
    "trace pair_world =
     [Process 0 1, Process 0 2, Failure 0 (HandlerError 1) 1, Finished 0 (Some (HandlerError 1)) 1]"
    "trace (world_of (run 1 (Complete 1 (Some (HandlerError 2)) 2) pair_world)) =
     [Process 0 1, Process 0 2, Failure 0 (HandlerError 1) 1, Finished 0 (Some (HandlerError 1)) 1,
      Failure 0 (HandlerError 2) 2, Finished 0 (Some (HandlerError 2)) 2, Drain 0]"
    by code_simp+
  have c: "onFailure (queues pair_world 0)" "onDone (queues pair_world 0)"
    "onDrain (queues pair_world 0)" "waiting (queues pair_world 0) = []"
    by code_simp+
  have z: "count (queues demo_world 0) = 0" by code_simp
  then have m: "mstep demo_world (emit (Drain 0) demo_world)" by (rule ms_drain)
  have "returned (run 1 (Complete 1 (Some (HandlerError 2)) 2) pair_world)" by code_simp
  then have f: "final (run 1 (Complete 1 (Some (HandlerError 2)) 2) pair_world)
      = Some (world_of (run 1 (Complete 1 (Some (HandlerError 2)) 2) pair_world))"
    by (rule final_returned)
  note T = C8_drain_when_idle [of 1 0 "HandlerError 2" 2 pair_world]
  from T h have "next_finish 1 1 (Some (HandlerError 2)) 2 pair_world =
         (if \<not> paused (queues pair_world 0) \<and> waiting (queues pair_world 0) \<noteq> [] then takeNext 1 0 else Done)
           (pair_world\<lparr>acts := (acts pair_world)[1 := (acts pair_world ! 1)\<lparr>finished := True, timer := None\<rparr>],
              queues := (queues pair_world)(0 := (queues pair_world 0)\<lparr>count := count (queues pair_world 0) - 1\<rparr>),
              trace := trace pair_world
                @ (if onFailure (queues pair_world 0) then [Failure 0 (HandlerError 2) 2] else [])
                @ (if onDone (queues pair_world 0) then [Finished 0 (Some (HandlerError 2)) 2] else [])
                @ (if count (queues pair_world 0) = 1 \<and> onDrain (queues pair_world 0) then [Drain 0] else [])\<rparr>)"
    by blast
  then have n: "next_finish 1 1 (Some (HandlerError 2)) 2 pair_world =
     Done (pair_world\<lparr>acts := (acts pair_world)[1 := (acts pair_world ! 1)\<lparr>finished := True, timer := None\<rparr>],
        queues := (queues pair_world)(0 := (queues pair_world 0)\<lparr>count := 0\<rparr>),
        trace := trace pair_world @
          [Failure 0 (HandlerError 2) 2, Finished 0 (Some (HandlerError 2)) 2, Drain 0]\<rparr>)"
    using c e(2) by simp
  from T f have s: "mstep\<^sup>*\<^sup>* pair_world (world_of (run 1 (Complete 1 (Some (HandlerError 2)) 2) pair_world))"
    by blast
  from h e n s m z show ?thesis by blast
qed






text \<open>
  C10. Claimed: \<open>takeNext\<close> is only ever called with a free channel, so no dequeued entry
  is dropped. In the run below the zero-delay timeout scheduled after a waiting timeout
  fires when \<open>add\<close> has meanwhile filled the only channel: \<open>takeNext\<close> runs with
  \<^verbatim>\<open>count = concurrency\<close>, removes task 3 from the waiting list and neither starts it
  nor reports it.
\<close>

theorem C10_dropped_task:
  "returned (run_all 1 [Add 0 1 0, Add 0 2 0, Tick 100, Add 0 3 0, Complete 0 None 1, Add 0 4 0] demo_world) \<and>
   map task (waiting (queues (world_of (run_all 1 [Add 0 1 0, Add 0 2 0, Tick 100, Add 0 3 0, Complete 0 None 1, Add 0 4 0] demo_world)) 0)) = [3] \<and>
   count (queues (world_of (run_all 1 [Add 0 1 0, Add 0 2 0, Tick 100, Add 0 3 0, Complete 0 None 1, Add 0 4 0] demo_world)) 0) = 1 \<and>
   concurrency (queues (world_of (run_all 1 [Add 0 1 0, Add 0 2 0, Tick 100, Add 0 3 0, Complete 0 None 1, Add 0 4 0] demo_world)) 0) = 1 \<and>
   paused (queues (world_of (run_all 1 [Add 0 1 0, Add 0 2 0, Tick 100, Add 0 3 0, Complete 0 None 1, Add 0 4 0] demo_world)) 0) = False \<and>
   deferred (world_of (run_all 1 [Add 0 1 0, Add 0 2 0, Tick 100, Add 0 3 0, Complete 0 None 1, Add 0 4 0] demo_world)) = [0] \<and>
   returned (run_all 1 [Add 0 1 0, Add 0 2 0, Tick 100, Add 0 3 0, Complete 0 None 1, Add 0 4 0, Deferred] demo_world) \<and>
   waiting (queues (world_of (run_all 1 [Add 0 1 0, Add 0 2 0, Tick 100, Add 0 3 0, Complete 0 None 1, Add 0 4 0, Deferred] demo_world)) 0) = [] \<and>
   map atask (acts (world_of (run_all 1 [Add 0 1 0, Add 0 2 0, Tick 100, Add 0 3 0, Complete 0 None 1, Add 0 4 0, Deferred] demo_world))) = [1, 4] \<and>
   deferred (world_of (run_all 1 [Add 0 1 0, Add 0 2 0, Tick 100, Add 0 3 0, Complete 0 None 1, Add 0 4 0, Deferred] demo_world)) = [] \<and>
   trace (world_of (run_all 1 [Add 0 1 0, Add 0 2 0, Tick 100, Add 0 3 0, Complete 0 None 1, Add 0 4 0, Deferred] demo_world)) =
     [Process 0 1, Success 0 1, Finished 0 None 1, Drain 0,
      Failure 0 WaitingTimedOut 2, Finished 0 (Some WaitingTimedOut) 2, Drain 0,
      Process 0 4]"
  by code_simp


end
